theory Spec2Isabelle
  imports Main "HOL-Library.Word"
begin

unbundle bit_operations_syntax

section \<open>fbclock: a clock drawn on the Linux framebuffer\<close>

text \<open>
  A shallow embedding of \<^verbatim>\<open>fbclock.c\<close>. C \<^verbatim>\<open>int\<close> values that stay small are HOL
  integers; the \<^verbatim>\<open>__u32\<close> fields of the framebuffer geometry are 32-bit words, so that
  unsigned arithmetic wraps as in C. Byte offsets into the mapping are integers relative
  to \<^verbatim>\<open>clock->video\<close>: pointers are taken to be wider than 32 bits, as on 64-bit Linux,
  so that adding a 32-bit offset to one does not wrap.
\<close>

subsection \<open>Constants, faults, the device geometry\<close>

type_synonym byte = "8 word"
type_synonym u32 = "32 word"

abbreviation (input) FONT_WIDTH :: nat where "FONT_WIDTH \<equiv> 8"
abbreviation (input) FONT_HEIGHT :: nat where "FONT_HEIGHT \<equiv> 8"
abbreviation (input) MAX_TEXT_LEN :: nat where "MAX_TEXT_LEN \<equiv> 128"

text \<open>
  What C leaves undefined is a value of the model: a write outside the mapping, a read
  outside the glyph table, a copy past the end of \<^verbatim>\<open>char text[MAX_TEXT_LEN]\<close>, a read of
  \<^verbatim>\<open>text[i]\<close> outside the string.
\<close>

datatype fault = OutOfBounds | GlyphIndex | TextOverflow | TextIndex

definition fbind :: "fault + 'a \<Rightarrow> ('a \<Rightarrow> fault + 'b) \<Rightarrow> fault + 'b" where
  "fbind m f = (case m of Inl e \<Rightarrow> Inl e | Inr v \<Rightarrow> f v)"

text \<open>
  The fields of \<^verbatim>\<open>struct fb_fix_screeninfo\<close> and \<^verbatim>\<open>struct fb_var_screeninfo\<close>
  (\<^verbatim>\<open>linux/fb.h\<close>, all \<^verbatim>\<open>__u32\<close>) that the program reads, and the \<^verbatim>\<open>FBClock\<close> structure.
  \<open>video\<close> is the mapping returned by \<^verbatim>\<open>mmap\<close>: the bytes of the surface, in order.
\<close>

record fb_fix_screeninfo =
  smem_len :: u32
  line_length :: u32

record fb_var_screeninfo =
  xres :: u32
  yres :: u32
  bits_per_pixel :: u32

record FBClock =
  capacity :: "string option"
  finfo :: fb_fix_screeninfo
  vinfo :: fb_var_screeninfo
  video :: "byte list"

subsection \<open>memset on the mapping\<close>

text \<open>
  One call \<^verbatim>\<open>memset(video + dst, val, cnt)\<close>. It writes the \<open>cnt\<close> bytes at offsets
  \<open>dst, ..., dst + cnt - 1\<close>; the call is a fault when one of them is not an offset of
  the mapping.
\<close>

datatype wr = Memset (dst: int) (val: byte) (cnt: nat)

definition wr_addrs :: "wr \<Rightarrow> int set" where
  "wr_addrs w = {dst w ..< dst w + int (cnt w)}"

definition in_bounds :: "nat \<Rightarrow> wr \<Rightarrow> bool" where
  "in_bounds len w = (cnt w = 0 \<or> (0 \<le> dst w \<and> nat (dst w) + cnt w \<le> len))"

definition memset :: "byte list \<Rightarrow> wr \<Rightarrow> fault + byte list" where
  "memset mem w =
     (if in_bounds (length mem) w
      then Inr (take (nat (dst w)) mem @ replicate (cnt w) (val w) @ drop (nat (dst w) + cnt w) mem)
      else Inl OutOfBounds)"

fun exec :: "wr list \<Rightarrow> byte list \<Rightarrow> fault + byte list" where
  "exec [] mem = Inr mem"
| "exec (w # ws) mem = (case memset mem w of Inl e \<Rightarrow> Inl e | Inr mem' \<Rightarrow> exec ws mem')"

subsection \<open>The glyph table\<close>

text \<open>
  \<^verbatim>\<open>font8x8_basic.h\<close> is not part of the sources read here, so the table
  \<^verbatim>\<open>font8x8_basic[ch][char_row]\<close> is a parameter: a list of glyphs, each a list of
  \<^verbatim>\<open>FONT_HEIGHT\<close> row bytes.
\<close>

type_synonym font = "byte list list"

definition in_table :: "font \<Rightarrow> int \<Rightarrow> bool" where
  "in_table font8x8_basic ch =
     (0 \<le> ch \<and> nat ch < length font8x8_basic \<and> length (font8x8_basic ! nat ch) = FONT_HEIGHT)"

subsection \<open>draw\_char (lines 100--125)\<close>

definition bytes_per_pixel :: "FBClock \<Rightarrow> u32" where
  "bytes_per_pixel clock = bits_per_pixel (vinfo clock) div 8"

text \<open>
  \<^verbatim>\<open>video + y * line_length + x * bytes_per_pixel\<close>: the first product is unsigned
  (\<^verbatim>\<open>int * __u32\<close>) and wraps modulo \<open>2^32\<close>; the second is an \<^verbatim>\<open>int\<close>, read in two's
  complement.
\<close>

definition draw_start :: "FBClock \<Rightarrow> int \<Rightarrow> int \<Rightarrow> int" where
  "draw_start clock x y =
     uint (word_of_int y * line_length (finfo clock))
     + sint (word_of_int x * bytes_per_pixel clock)"

text \<open>
  The inner loop \<^verbatim>\<open>while (char_bit < 256)\<close> for the row byte \<open>g\<close>, from the cursor \<open>off\<close>:
  the calls it makes and the cursor it leaves. \<^verbatim>\<open>char_bit\<close> starts at 1 and is doubled; the
  test \<open>0 < char_bit\<close> only makes the recursion total.
\<close>

function draw_bits :: "byte \<Rightarrow> nat \<Rightarrow> int \<Rightarrow> int \<Rightarrow> wr list \<times> int" where
  "draw_bits g bpp char_bit off =
     (if 0 < char_bit \<and> char_bit < 256 then
        (case draw_bits g bpp (2 * char_bit) (off + int bpp) of
           (ws, off') \<Rightarrow>
             (Memset off (if g AND word_of_int char_bit \<noteq> 0 then 0xff else 0x0) bpp # ws, off'))
      else ([], off))"
  by pat_completeness auto
termination
  by (relation "measure (\<lambda>(g, bpp, char_bit, off). nat (256 - char_bit))") auto

declare draw_bits.simps [simp del]

text \<open>
  The outer loop \<^verbatim>\<open>for (char_row = 0; char_row < FONT_HEIGHT; char_row++)\<close>; \<open>skip\<close> is
  \<^verbatim>\<open>line_length - FONT_WIDTH * bytes_per_pixel\<close>.
\<close>

function draw_rows :: "byte list \<Rightarrow> nat \<Rightarrow> nat \<Rightarrow> nat \<Rightarrow> int \<Rightarrow> wr list" where
  "draw_rows glyph bpp skip char_row off =
     (if char_row < FONT_HEIGHT then
        (case draw_bits (glyph ! char_row) bpp 1 off of
           (ws, off') \<Rightarrow> ws @ draw_rows glyph bpp skip (Suc char_row) (off' + int skip))
      else [])"
  by pat_completeness auto
termination
  by (relation "measure (\<lambda>(glyph, bpp, skip, char_row, off). FONT_HEIGHT - char_row)") auto

declare draw_rows.simps [simp del]

definition row_skip :: "FBClock \<Rightarrow> u32" where
  "row_skip clock = line_length (finfo clock) - 8 * bytes_per_pixel clock"

definition draw_char_calls :: "font \<Rightarrow> FBClock \<Rightarrow> int \<Rightarrow> int \<Rightarrow> int \<Rightarrow> wr list" where
  "draw_char_calls font8x8_basic clock x y ch =
     draw_rows (font8x8_basic ! nat ch) (unat (bytes_per_pixel clock)) (unat (row_skip clock)) 0
       (draw_start clock x y)"

definition draw_char :: "font \<Rightarrow> FBClock \<Rightarrow> int \<Rightarrow> int \<Rightarrow> int \<Rightarrow> fault + FBClock" where
  "draw_char font8x8_basic clock x y ch =
     (if in_table font8x8_basic ch then
        (case exec (draw_char_calls font8x8_basic clock x y ch) (video clock) of
           Inl e \<Rightarrow> Inl e
         | Inr mem \<Rightarrow> Inr (clock\<lparr>video := mem\<rparr>))
      else Inl GlyphIndex)"

subsection \<open>clear\_time (lines 127--132)\<close>

text \<open>Both products are unsigned 32-bit: \<^verbatim>\<open>int * __u32\<close>.\<close>

definition clear_time_call :: "FBClock \<Rightarrow> int \<Rightarrow> wr" where
  "clear_time_call clock y =
     Memset (uint (word_of_int y * line_length (finfo clock))) 0
       (unat (8 * line_length (finfo clock)))"

definition clear_time :: "FBClock \<Rightarrow> int \<Rightarrow> fault + FBClock" where
  "clear_time clock y =
     (case memset (video clock) (clear_time_call clock y) of
        Inl e \<Rightarrow> Inl e
      | Inr mem \<Rightarrow> Inr (clock\<lparr>video := mem\<rparr>))"

subsection \<open>Horizontal drift of the text (run\_clock, lines 173--197)\<close>

text \<open>
  \<^verbatim>\<open>x += dx; if (x > 20 || x < 6) { dx = -dx; }\<close> on the pair \<open>(x, dx)\<close>.
\<close>

definition bounce_cond :: "int \<Rightarrow> bool" where
  "bounce_cond x = (x > 20 \<or> x < 6)"

definition advance :: "int \<times> int \<Rightarrow> int \<times> int" where
  "advance s = (let x = fst s + snd s;
                    dx = (if bounce_cond x then - snd s else snd s)
                in (x, dx))"

text \<open>The loop state after \<open>n\<close> ticks, from \<^verbatim>\<open>dx = 1; x = 5;\<close>.\<close>

fun drift :: "nat \<Rightarrow> int \<times> int" where
  "drift 0 = (5, 1)"
| "drift (Suc n) = advance (drift n)"

subsection \<open>The C library, as seen in one tick\<close>

text \<open>
  What the library calls of one tick return. \<open>time_now\<close> is the value of \<^verbatim>\<open>time(NULL)\<close>
  (\<open>-1\<close> is its failure), \<open>localtime_of\<close> returns \<open>None\<close> for \<^verbatim>\<open>NULL\<close>, \<open>asctime_of\<close> is
  the string the library formats for a broken-down time (\<open>None\<close> when it fails).
  \<open>fopen_r\<close> gives the capacity file opened for reading, \<open>None\<close> when \<^verbatim>\<open>fopen\<close> returns
  \<^verbatim>\<open>NULL\<close>; an open file either delivers its contents or fails on reading.
  \<open>stack_bytes\<close> is what \<^verbatim>\<open>char capacity[4]\<close>, which has no initialiser, holds when the
  function is entered, read as a C string.
\<close>

datatype capfile = Contents string | ReadError

record 'tm libc =
  time_now :: int
  localtime_of :: "int \<Rightarrow> 'tm option"
  asctime_of :: "'tm \<Rightarrow> string option"
  fopen_r :: "string \<Rightarrow> capfile option"
  stack_bytes :: string

text \<open>
  What \<^verbatim>\<open>asctime\<close> returns. The string is the library's and its length is bounded there:
  the form of ISO C has 25 characters, and glibc formats into a static buffer of 114 bytes
  and returns \<^verbatim>\<open>NULL\<close> when the result does not fit. So a call returns a string of at
  most 113 characters, or \<^verbatim>\<open>NULL\<close>.
\<close>

definition asctime :: "'tm libc \<Rightarrow> 'tm \<Rightarrow> string option" where
  "asctime lc local =
     (case asctime_of lc local of
        None \<Rightarrow> None
      | Some s \<Rightarrow> if length s \<le> 113 then Some s else None)"

text \<open>
  \<^verbatim>\<open>fgets(buf, size, file)\<close> stores at most \<open>size - 1\<close> characters, stopping after a newline,
  and returns \<^verbatim>\<open>NULL\<close>, leaving \<open>buf\<close> as it was, when nothing could be read.
\<close>

fun fgets_line :: "nat \<Rightarrow> string \<Rightarrow> string" where
  "fgets_line 0 s = []"
| "fgets_line (Suc n) [] = []"
| "fgets_line (Suc n) (c # cs) = (if c = CHR 0x0A then [c] else c # fgets_line n cs)"

definition fgets :: "nat \<Rightarrow> capfile \<Rightarrow> string option" where
  "fgets n f =
     (case f of
        ReadError \<Rightarrow> None
      | Contents s \<Rightarrow> if s = [] then None else Some (fgets_line (n - 1) s))"

text \<open>
  \<^verbatim>\<open>atoi\<close>: white space, an optional sign, decimal digits. A value that does not fit
  an \<^verbatim>\<open>int\<close> is undefined in C; glibc computes \<^verbatim>\<open>(int) strtol(s, NULL, 10)\<close>, a
  \<^verbatim>\<open>long\<close> clamped to its range and then cut to 32 bits, which is what is written here.
\<close>

definition isspace :: "char \<Rightarrow> bool" where
  "isspace c = (of_char c \<in> {32, 9, 10, 11, 12, 13 :: nat})"

definition isdigit :: "char \<Rightarrow> bool" where
  "isdigit c = (48 \<le> (of_char c :: nat) \<and> (of_char c :: nat) \<le> 57)"

fun digits_val :: "int \<Rightarrow> string \<Rightarrow> int" where
  "digits_val acc [] = acc"
| "digits_val acc (c # cs) =
     (if isdigit c then digits_val (10 * acc + (of_char c - 48)) cs else acc)"

definition long_to_int :: "int \<Rightarrow> int" where
  "long_to_int v = sint (word_of_int (max (- (2 ^ 63)) (min (2 ^ 63 - 1) v)) :: 32 word)"

definition atoi :: "string \<Rightarrow> int" where
  "atoi s =
     (case dropWhile isspace s of
        [] \<Rightarrow> 0
      | c # cs \<Rightarrow>
          if c = CHR ''-'' then long_to_int (- digits_val 0 cs)
          else if c = CHR ''+'' then long_to_int (digits_val 0 cs)
          else long_to_int (digits_val 0 (c # cs)))"

text \<open>The conversion \<^verbatim>\<open>%d\<close> of \<^verbatim>\<open>sprintf\<close>.\<close>

fun dec :: "nat \<Rightarrow> string" where
  "dec n = (if n < 10 then [char_of (48 + n)] else dec (n div 10) @ [char_of (48 + n mod 10)])"

declare dec.simps [simp del]

definition fmt_d :: "int \<Rightarrow> string" where
  "fmt_d n = (if n < 0 then CHR ''-'' # dec (nat (- n)) else dec (nat n))"

subsection \<open>get\_asctime and add\_power\_level\_to\_text (lines 134--166)\<close>

text \<open>
  The buffer is \<^verbatim>\<open>char text[MAX_TEXT_LEN]\<close> of \<^verbatim>\<open>run_clock\<close>. \<^verbatim>\<open>strcpy\<close> and \<^verbatim>\<open>sprintf\<close>
  take no size: a string that with its terminator needs more than \<^verbatim>\<open>MAX_TEXT_LEN\<close> bytes
  is written past the end of the buffer.
\<close>

definition strcpy :: "string \<Rightarrow> fault + string" where
  "strcpy src = (if length src < MAX_TEXT_LEN then Inr src else Inl TextOverflow)"

definition get_asctime :: "'tm libc \<Rightarrow> fault + string" where
  "get_asctime lc =
     (let now = time_now lc in
      if now \<noteq> - 1 then
        (let time_string = (case localtime_of lc now of
                              None \<Rightarrow> None
                            | Some local \<Rightarrow> asctime lc local)
         in case time_string of
              Some s \<Rightarrow> strcpy s
            | None \<Rightarrow> strcpy ''Error getting time!'')
      else strcpy ''Error getting time!'')"

text \<open>
  The result of \<^verbatim>\<open>fgets\<close> is not tested: when it reads nothing, \<^verbatim>\<open>atoi\<close> is applied to
  the buffer as it was.
\<close>

definition add_power_level_to_text :: "'tm libc \<Rightarrow> string \<Rightarrow> string \<Rightarrow> fault + string" where
  "add_power_level_to_text lc path text =
     (case fopen_r lc path of
        None \<Rightarrow> Inr text
      | Some file \<Rightarrow>
          (let capacity = (case fgets 4 file of Some line \<Rightarrow> line | None \<Rightarrow> stack_bytes lc);
               out = text @ ''- '' @ fmt_d (atoi capacity) @ ''%''
           in if length out < MAX_TEXT_LEN then Inr out else Inl TextOverflow))"

text \<open>Lines 178--182 of \<^verbatim>\<open>run_clock\<close>: the text of one tick.\<close>

definition compose_text :: "'tm libc \<Rightarrow> FBClock \<Rightarrow> fault + string" where
  "compose_text lc clock =
     fbind (get_asctime lc)
       (\<lambda>text. case capacity clock of
                  None \<Rightarrow> Inr text
                | Some path \<Rightarrow> add_power_level_to_text lc path text)"

subsection \<open>run\_clock (lines 168--204)\<close>

text \<open>
  \<^verbatim>\<open>text[i]\<close> is a \<^verbatim>\<open>char\<close> passed as \<^verbatim>\<open>int\<close>: signed where \<^verbatim>\<open>char\<close> is signed. Bytes from
  128 on are outside a table of 128 glyphs with either signedness.
\<close>

definition char_code :: "char \<Rightarrow> int" where
  "char_code c = sint (of_char c :: 8 word)"

text \<open>\<^verbatim>\<open>y = clock->vinfo.yres - FONT_HEIGHT - 2\<close>, computed unsigned and stored in an \<^verbatim>\<open>int\<close>.\<close>

definition strip_y :: "FBClock \<Rightarrow> int" where
  "strip_y clock = sint (yres (vinfo clock) - 8 - 2)"

text \<open>The loop \<^verbatim>\<open>while (i >= 0)\<close>, drawing the characters from the last to the first.\<close>

function draw_text :: "font \<Rightarrow> FBClock \<Rightarrow> int \<Rightarrow> int \<Rightarrow> string \<Rightarrow> int \<Rightarrow> fault + FBClock" where
  "draw_text font8x8_basic clock x y text i =
     (if i \<ge> 0 then
        (if nat i < length text then
           (let p = x + i * 8 in
            case draw_char font8x8_basic clock p y (char_code (text ! nat i)) of
              Inl e \<Rightarrow> Inl e
            | Inr clock' \<Rightarrow> draw_text font8x8_basic clock' x y text (i - 1))
         else Inl TextIndex)
      else Inr clock)"
  by pat_completeness auto
termination
  by (relation "measure (\<lambda>(f, clock, x, y, text, i). nat (i + 1))") auto

declare draw_text.simps [simp del]

text \<open>Lines 184--191: erase the strip, then draw the text at \<open>x\<close>.\<close>

definition render :: "font \<Rightarrow> FBClock \<Rightarrow> int \<Rightarrow> int \<Rightarrow> string \<Rightarrow> fault + FBClock" where
  "render font8x8_basic clock x y text =
     (let i = int (length text) - 1 in
      case clear_time clock y of
        Inl e \<Rightarrow> Inl e
      | Inr clock' \<Rightarrow> draw_text font8x8_basic clock' x y text i)"

text \<open>One iteration of the loop body, on the surface and the pair \<open>(x, dx)\<close>.\<close>

definition tick :: "font \<Rightarrow> 'tm libc \<Rightarrow> int \<Rightarrow> FBClock \<times> int \<times> int \<Rightarrow> fault + FBClock \<times> int \<times> int" where
  "tick font8x8_basic lc y s =
     (case s of (clock, xd) \<Rightarrow>
        fbind (compose_text lc clock)
          (\<lambda>text. fbind (render font8x8_basic clock (fst xd) y text)
             (\<lambda>clock'. Inr (clock', advance xd))))"

text \<open>
  The iterations made while \<^verbatim>\<open>g_running\<close> is found non-zero, one element of the list for
  each, from \<^verbatim>\<open>dx = 1; x = 5;\<close>.
\<close>

fun ticks :: "font \<Rightarrow> int \<Rightarrow> 'tm libc list \<Rightarrow> FBClock \<times> int \<times> int \<Rightarrow> fault + FBClock \<times> int \<times> int" where
  "ticks font8x8_basic y [] s = Inr s"
| "ticks font8x8_basic y (lc # lcs) s =
     (case tick font8x8_basic lc y s of
        Inl e \<Rightarrow> Inl e
      | Inr s' \<Rightarrow> ticks font8x8_basic y lcs s')"

definition run_loop :: "font \<Rightarrow> FBClock \<Rightarrow> 'tm libc list \<Rightarrow> fault + FBClock \<times> int \<times> int" where
  "run_loop font8x8_basic clock lcs = ticks font8x8_basic (strip_y clock) lcs (clock, 5, 1)"

subsection \<open>Control flow of run\_clock and the signal handler (lines 177--209)\<close>

text \<open>
  The places of \<^verbatim>\<open>run_clock\<close> between which a signal can arrive: the test of the
  \<^verbatim>\<open>while\<close> (line 177); in its body, composing the text (178--182), erasing the strip
  (184--185), drawing (187--191), advancing \<open>x\<close> (193--197) and \<^verbatim>\<open>sleep\<close> (199); then
  \<^verbatim>\<open>munmap\<close> (202), \<^verbatim>\<open>close\<close> (203) and the return. The body has no \<^verbatim>\<open>break\<close> and no
  \<^verbatim>\<open>return\<close>. The process state keeps \<^verbatim>\<open>g_running\<close> and counts the calls of \<^verbatim>\<open>munmap\<close>
  and \<^verbatim>\<open>close\<close>; what a tick does to the surface is left out here.
\<close>

datatype pc = LoopTest | Compose | Erase | Draw | Advance | Sleep | Unmap | CloseFile | Returned

record proc =
  at :: pc
  g_running :: int
  munmaps :: nat
  closes :: nat

definition proc_init :: proc where
  "proc_init = \<lparr>at = LoopTest, g_running = 1, munmaps = 0, closes = 0\<rparr>"

fun next_pc :: "pc \<Rightarrow> int \<Rightarrow> pc" where
  "next_pc LoopTest g = (if g \<noteq> 0 then Compose else Unmap)"
| "next_pc Compose g = Erase"
| "next_pc Erase g = Draw"
| "next_pc Draw g = Advance"
| "next_pc Advance g = Sleep"
| "next_pc Sleep g = LoopTest"
| "next_pc Unmap g = CloseFile"
| "next_pc CloseFile g = Returned"
| "next_pc Returned g = Returned"

definition step :: "proc \<Rightarrow> proc" where
  "step p =
     p\<lparr>at := next_pc (at p) (g_running p),
       munmaps := (if at p = Unmap then Suc (munmaps p) else munmaps p),
       closes := (if at p = CloseFile then Suc (closes p) else closes p)\<rparr>"

text \<open>\<^verbatim>\<open>void handle_signal(int sig) { g_running = 0; }\<close>\<close>

definition handle_signal :: "proc \<Rightarrow> proc" where
  "handle_signal p = p\<lparr>g_running := 0\<rparr>"

text \<open>A schedule: the program makes a step, or the signal is delivered.\<close>

datatype event = Step | Signal

fun occur :: "event \<Rightarrow> proc \<Rightarrow> proc" where
  "occur Step p = step p"
| "occur Signal p = handle_signal p"

fun run :: "event list \<Rightarrow> proc \<Rightarrow> proc" where
  "run [] p = p"
| "run (e # es) p = run es (occur e p)"

definition in_tick :: "pc \<Rightarrow> bool" where
  "in_tick l = (l \<in> {Compose, Erase, Draw, Advance, Sleep})"

text \<open>How many times the mapping and the file have been released, place by place.\<close>

definition released :: "proc \<Rightarrow> bool" where
  "released p =
     (case at p of
        Returned \<Rightarrow> munmaps p = 1 \<and> closes p = 1
      | CloseFile \<Rightarrow> munmaps p = 1 \<and> closes p = 0
      | _ \<Rightarrow> munmaps p = 0 \<and> closes p = 0)"

subsection \<open>Closed forms used in the statements\<close>

text \<open>
  The eight calls of one glyph row, written out: column \<open>c\<close> is \<open>bpp\<close> bytes of
  \<open>0xff\<close> when bit \<open>c\<close> of the row byte is set and of zero when it is not.
\<close>

definition row_calls :: "byte \<Rightarrow> nat \<Rightarrow> int \<Rightarrow> wr list" where
  "row_calls g bpp off =
     map (\<lambda>c. Memset (off + int c * int bpp) (if bit g c then 0xff else 0x0) bpp) [0..<8]"

text \<open>
  The byte offset of the pixel in row \<open>r\<close> and column \<open>c\<close> of the glyph drawn at
  \<open>(x, y)\<close>: where the cursor of \<^verbatim>\<open>draw_char\<close> stands when it writes that pixel. And the
  byte written there for the glyph of \<open>ch\<close>.
\<close>

definition cell :: "FBClock \<Rightarrow> int \<Rightarrow> int \<Rightarrow> nat \<Rightarrow> nat \<Rightarrow> int" where
  "cell clock x y r c =
     draw_start clock x y
     + int r * (8 * int (unat (bytes_per_pixel clock)) + int (unat (row_skip clock)))
     + int c * int (unat (bytes_per_pixel clock))"

definition glyph_byte :: "font \<Rightarrow> int \<Rightarrow> nat \<Rightarrow> nat \<Rightarrow> byte" where
  "glyph_byte font8x8_basic ch r c = (if bit (font8x8_basic ! nat ch ! r) c then 0xff else 0x00)"

subsection \<open>Inputs for the examples\<close>


text \<open>
  A glyph table of 128 entries with the glyph of \<open>A\<close> at code 65 and blank glyphs
  elsewhere, and a surface of 12 rows of 24 pixels at 16 bits per pixel, stride 64.
\<close>

definition font_A :: font where
  "font_A = replicate 65 (replicate 8 0)
            @ ([0x0C, 0x1E, 0x33, 0x33, 0x3F, 0x33, 0x33, 0x00] # replicate 62 (replicate 8 0))"

definition surface_16bpp :: FBClock where
  "surface_16bpp =
     \<lparr>capacity = None,
      finfo = \<lparr>smem_len = 768, line_length = 64\<rparr>,
      vinfo = \<lparr>xres = 24, yres = 12, bits_per_pixel = 16\<rparr>,
      video = replicate 768 0x55\<rparr>"

text \<open>
  A surface of 64 rows of 64 pixels at 8 bits per pixel, all black, and a tick on which
  the library returns the timestamp of the epoch and no capacity file can be opened.
\<close>

definition surface_64x64 :: FBClock where
  "surface_64x64 =
     \<lparr>capacity = None,
      finfo = \<lparr>smem_len = 4096, line_length = 64\<rparr>,
      vinfo = \<lparr>xres = 64, yres = 64, bits_per_pixel = 8\<rparr>,
      video = replicate 4096 0\<rparr>"

definition libc_epoch :: "unit libc" where
  "libc_epoch =
     \<lparr>time_now = 0,
      localtime_of = (\<lambda>t. Some ()),
      asctime_of = (\<lambda>l. Some ''Thu Jan  1 00:00:00 1970\<newline>''),
      fopen_r = (\<lambda>p. None),
      stack_bytes = []\<rparr>"

text \<open>
  The time of a tick is not resolved when \<^verbatim>\<open>time\<close> returns \<open>-1\<close>, or \<^verbatim>\<open>localtime\<close>
  returns \<^verbatim>\<open>NULL\<close>, or \<^verbatim>\<open>asctime\<close> does.
\<close>

definition time_unresolved :: "'tm libc \<Rightarrow> bool" where
  "time_unresolved lc =
     (time_now lc = - 1
      \<or> (case localtime_of lc (time_now lc) of
            None \<Rightarrow> True
          | Some local \<Rightarrow> asctime lc local = None))"

text \<open>
  A clock started with \<^verbatim>\<open>-b\<close>, and ticks on which: the capacity file holds \<open>100\<close>; the
  time cannot be read and the capacity file holds \<open>87\<close>; the capacity file opens but gives no line, \<open>junk\<close> being what the
  buffer \<^verbatim>\<open>capacity\<close> holds.
\<close>

definition clock_battery :: FBClock where
  "clock_battery = surface_16bpp\<lparr>capacity := Some ''/sys/class/power_supply/BAT0/capacity''\<rparr>"

definition libc_battery :: "unit libc" where
  "libc_battery = libc_epoch\<lparr>fopen_r := (\<lambda>p. Some (Contents ''100\<newline>''))\<rparr>"

definition libc_no_time :: "unit libc" where
  "libc_no_time = libc_epoch\<lparr>time_now := - 1, fopen_r := (\<lambda>p. Some (Contents ''87\<newline>''))\<rparr>"

definition libc_unread :: "capfile \<Rightarrow> string \<Rightarrow> unit libc" where
  "libc_unread file junk = libc_epoch\<lparr>fopen_r := (\<lambda>p. Some file), stack_bytes := junk\<rparr>"

section \<open>Properties\<close>

subsection \<open>memset and sequences of calls\<close>

lemma memset_length: "memset mem w = Inr m \<Longrightarrow> length m = length mem"
  by (auto simp: memset_def in_bounds_def split: if_splits)

lemma memset_Inr_iff: "(\<exists>m. memset mem w = Inr m) = in_bounds (length mem) w"
  by (simp add: memset_def)

lemma memset_Inl: "memset mem w = Inl e \<Longrightarrow> e = OutOfBounds \<and> \<not> in_bounds (length mem) w"
  by (auto simp: memset_def split: if_splits)

lemma memset_nth:
  assumes "memset mem w = Inr m" and "a < length mem"
  shows "m ! a = (if int a \<in> wr_addrs w then val w else mem ! a)"
proof (cases "cnt w = 0")
  case True
  with assms show ?thesis by (auto simp: memset_def wr_addrs_def split: if_splits)
next
  case False
  with assms have b: "0 \<le> dst w" "nat (dst w) + cnt w \<le> length mem"
    and m: "m = take (nat (dst w)) mem @ replicate (cnt w) (val w) @ drop (nat (dst w) + cnt w) mem"
    by (auto simp: memset_def in_bounds_def split: if_splits)
  show ?thesis
    using b assms(2) unfolding m wr_addrs_def
    by (auto simp: nth_append)
qed

lemma exec_length: "exec ws mem = Inr m \<Longrightarrow> length m = length mem"
  by (induction ws arbitrary: mem) (auto split: sum.splits dest: memset_length)

lemma exec_Inr_iff: "(\<exists>m. exec ws mem = Inr m) = (\<forall>w\<in>set ws. in_bounds (length mem) w)"
proof (induction ws arbitrary: mem)
  case Nil
  show ?case by simp
next
  case (Cons w ws)
  show ?case
  proof (cases "memset mem w")
    case (Inl e)
    then show ?thesis using memset_Inl [of mem w e] by simp
  next
    case (Inr m)
    then show ?thesis
      using Cons [of m] memset_length [of mem w m] memset_Inr_iff [of mem w] by auto
  qed
qed

lemma exec_Inl: "exec ws mem = Inl e \<Longrightarrow> e = OutOfBounds"
  by (induction ws arbitrary: mem) (auto split: sum.splits dest: memset_Inl)

subsection \<open>The calls of draw\_char\<close>

lemma draw_bits_from:
  "k \<le> 8 \<Longrightarrow>
   draw_bits g bpp (2 ^ k) off =
     (map (\<lambda>c. Memset (off + int (c - k) * int bpp) (if bit g c then 0xff else 0x0) bpp) [k..<8],
      off + int (8 - k) * int bpp)"
proof (induction "8 - k" arbitrary: k off)
  case 0
  then have "k = 8" by simp
  then show ?case by (simp add: draw_bits.simps)
next
  case (Suc n)
  then have k: "k < 8" and n: "n = 8 - Suc k" and le: "Suc k \<le> 8" by simp_all
  have lt: "(2::int) ^ k < 256"
    using power_strict_increasing [of k 8 "2::int"] k by simp
  have test: "(g AND 2 ^ k = 0) = (\<not> bit g k)"
    by (rule and_exp_eq_0_iff_not_bit)
  have unfold: "draw_bits g bpp (2 ^ k) off =
      (Memset off (if bit g k then 0xff else 0x0) bpp # fst (draw_bits g bpp (2 ^ Suc k) (off + int bpp)),
       snd (draw_bits g bpp (2 ^ Suc k) (off + int bpp)))"
    using lt by (subst draw_bits.simps) (simp add: test split: prod.split)
  have rest: "map (\<lambda>c. Memset (off + int bpp + int (c - Suc k) * int bpp)
                          (if bit g c then 0xff else 0x0) bpp) [Suc k..<8]
              = map (\<lambda>c. Memset (off + int (c - k) * int bpp)
                          (if bit g c then 0xff else 0x0) bpp) [Suc k..<8]"
    by (rule map_cong) (auto simp: algebra_simps Suc_diff_le)
  have fin: "off + int bpp + int (8 - Suc k) * int bpp = off + int (8 - k) * int bpp"
    using k by (simp add: algebra_simps Suc_diff_le)
  have cons: "[k..<8] = k # [Suc k..<8]"
    using k by (simp add: upt_conv_Cons)
  show ?case
    unfolding unfold Suc.hyps(1) [OF n le, of "off + int bpp"] cons rest fin
    by simp
qed

lemma draw_bits_row: "draw_bits g bpp 1 off = (row_calls g bpp off, off + 8 * int bpp)"
  using draw_bits_from [of 0 g bpp off] by (simp add: row_calls_def)

lemma draw_rows_from:
  "r \<le> 8 \<Longrightarrow>
   draw_rows glyph bpp skip r off =
     concat (map (\<lambda>k. row_calls (glyph ! k) bpp (off + int (k - r) * (8 * int bpp + int skip)))
               [r..<8])"
proof (induction "8 - r" arbitrary: r off)
  case 0
  then have "r = 8" by simp
  then show ?case by (simp add: draw_rows.simps)
next
  case (Suc n)
  then have r: "r < 8" and n: "n = 8 - Suc r" and le: "Suc r \<le> 8" by simp_all
  have rest: "map (\<lambda>k. row_calls (glyph ! k) bpp
                     (off + 8 * int bpp + int skip + int (k - Suc r) * (8 * int bpp + int skip)))
                [Suc r..<8]
              = map (\<lambda>k. row_calls (glyph ! k) bpp (off + int (k - r) * (8 * int bpp + int skip)))
                [Suc r..<8]"
    by (rule map_cong) (auto simp: algebra_simps Suc_diff_le)
  have unfold: "draw_rows glyph bpp skip r off =
      row_calls (glyph ! r) bpp off @ draw_rows glyph bpp skip (Suc r) (off + 8 * int bpp + int skip)"
    using r by (subst draw_rows.simps) (simp add: draw_bits_row)
  have cons: "[r..<8] = r # [Suc r..<8]"
    using r by (simp add: upt_conv_Cons)
  show ?case
    unfolding unfold Suc.hyps(1) [OF n le, of "off + 8 * int bpp + int skip"] cons rest
    by simp
qed

lemma draw_char_calls_closed:
  "draw_char_calls font8x8_basic clock x y ch =
     concat (map (\<lambda>r. row_calls (font8x8_basic ! nat ch ! r) (unat (bytes_per_pixel clock))
                        (draw_start clock x y
                         + int r * (8 * int (unat (bytes_per_pixel clock)) + int (unat (row_skip clock)))))
               [0..<8])"
  using draw_rows_from [of 0] by (simp add: draw_char_calls_def)


subsection \<open>The drift of the text\<close>

lemma drift_inv:
  "(snd (drift n) = 1 \<and> 5 \<le> fst (drift n) \<and> fst (drift n) \<le> 20)
   \<or> (snd (drift n) = - 1 \<and> 6 \<le> fst (drift n) \<and> fst (drift n) \<le> 21)"
  by (induction n) (auto simp: advance_def bounce_cond_def Let_def)

lemma drift_16: "drift 16 = (21, - 1)"
  by code_simp

lemma drift_32: "drift 32 = (5, 1)"
  by code_simp

text \<open>The pair \<open>(x, dx)\<close> after the iterations of the loop is \<open>drift\<close> of their number.\<close>

lemma tick_advance:
  "tick f lc y (c, xd) = Inr (c', xd') \<Longrightarrow> xd' = advance xd"
  by (auto simp: tick_def fbind_def split: sum.splits)

lemma ticks_advance:
  "ticks f y lcs (c, xd) = Inr (c', xd') \<Longrightarrow> xd' = (advance ^^ length lcs) xd"
proof (induction lcs arbitrary: c xd)
  case Nil
  then show ?case by simp
next
  case (Cons lc lcs)
  then obtain c1 xd1 where t: "tick f lc y (c, xd) = Inr (c1, xd1)"
    and r: "ticks f y lcs (c1, xd1) = Inr (c', xd')"
    by (auto split: sum.splits)
  from tick_advance [OF t] Cons.IH [OF r] show ?case
    by (simp add: funpow_swap1)
qed

lemma drift_funpow: "drift n = (advance ^^ n) (5, 1)"
  by (induction n) simp_all

lemma run_loop_drift:
  "run_loop f clock lcs = Inr (c', xd) \<Longrightarrow> xd = drift (length lcs)"
  unfolding run_loop_def drift_funpow by (rule ticks_advance)

text \<open>
  Claim C3, as amended. From \<open>x = 5\<close>, \<open>dx = 1\<close>, after every update \<open>x\<close> lies in
  \<open>[5, 21]\<close>, and \<open>dx\<close> changes sign exactly when \<open>x > 20\<close> or \<open>x < 6\<close> holds after
  the advance, and is kept exactly when it does not.
\<close>

theorem drift_band_and_flip:
  "5 \<le> fst (drift (Suc n)) \<and> fst (drift (Suc n)) \<le> 21
   \<and> (snd (drift (Suc n)) = - snd (drift n)) = bounce_cond (fst (drift (Suc n)))
   \<and> (snd (drift (Suc n)) = snd (drift n)) = (\<not> bounce_cond (fst (drift (Suc n))))"
  using drift_inv [of n] drift_inv [of "Suc n"]
  by (auto simp: advance_def Let_def)

theorem drift_band_and_flip_witness:
  "5 \<le> fst (drift (Suc 15)) \<and> fst (drift (Suc 15)) \<le> 21
   \<and> snd (drift (Suc 15)) = - snd (drift 15) \<and> bounce_cond (fst (drift (Suc 15)))"
  using drift_band_and_flip [of 15] drift_16 by (simp add: bounce_cond_def)

text \<open>
  The band \<open>[6, 20]\<close> of claim C3 is left: the sixteenth update gives \<open>x = 21\<close>.
\<close>

theorem drift_leaves_band: "fst (drift 16) = 21 \<and> \<not> fst (drift 16) \<le> 20"
  by (simp add: drift_16)

text \<open>
  Claim C10. After every update of the position, \<open>x\<close> lies in \<open>[5, 21]\<close> and \<open>dx\<close> is
  \<open>-1\<close> or \<open>1\<close>; \<open>x = 21\<close> is reached by the sixteenth update and \<open>x = 5\<close> by the
  thirty-second.
\<close>

theorem drift_range_reached:
  "5 \<le> fst (drift n) \<and> fst (drift n) \<le> 21 \<and> snd (drift n) \<in> {- 1, 1}
   \<and> fst (drift 16) = 21 \<and> fst (drift 32) = 5"
  using drift_inv [of n] by (auto simp: drift_16 drift_32)

subsection \<open>Shutdown\<close>

lemma next_pc_Unmap: "next_pc l g = Unmap \<Longrightarrow> l = LoopTest \<and> g = 0"
  by (cases l) (auto split: if_splits)

lemma next_pc_CloseFile: "(next_pc l g = CloseFile) = (l = Unmap)"
  by (cases l) auto

lemma released_step: "released p \<Longrightarrow> released (step p)"
  by (cases "at p") (auto simp: released_def step_def)

lemma released_signal: "released p \<Longrightarrow> released (handle_signal p)"
  by (auto simp: released_def handle_signal_def split: pc.splits)

lemma released_run: "released p \<Longrightarrow> released (run es p)"
proof (induction es arbitrary: p)
  case Nil
  then show ?case by simp
next
  case (Cons e es)
  then show ?case by (cases e) (simp_all add: released_step released_signal)
qed

lemma released_init: "released proc_init"
  by (simp add: released_def proc_init_def)

lemma stop_within_8: "g_running p = 0 \<Longrightarrow> at (run (replicate 8 Step) p) = Returned"
  by (cases "at p") (simp_all add: eval_nat_numeral step_def)

text \<open>
  Claim C5. The handler changes nothing but the flag. The only step that leaves the loop
  is the test of the \<^verbatim>\<open>while\<close>, when it finds the flag zero, so no step inside a tick
  leaves it; \<^verbatim>\<open>close\<close> is the step after \<^verbatim>\<open>munmap\<close> and after nothing else. Under every
  schedule of steps and signals, nothing has been released while the program is in the
  loop, and when it has returned \<^verbatim>\<open>munmap\<close> and \<^verbatim>\<open>close\<close> have each been called once.
  Once the flag is zero the program returns within eight steps.
\<close>

theorem shutdown_flag_single_release:
  "(handle_signal p = p\<lparr>g_running := 0\<rparr>)
   \<and> (at (step p) = Unmap \<longrightarrow> at p = LoopTest \<and> g_running p = 0)
   \<and> (at (step p) = CloseFile) = (at p = Unmap)
   \<and> (at (run es proc_init) = LoopTest \<or> in_tick (at (run es proc_init))
        \<or> at (run es proc_init) = Unmap
        \<longrightarrow> munmaps (run es proc_init) = 0 \<and> closes (run es proc_init) = 0)
   \<and> (at (run es proc_init) = Returned
        \<longrightarrow> munmaps (run es proc_init) = 1 \<and> closes (run es proc_init) = 1)
   \<and> (g_running (run es proc_init) = 0
        \<longrightarrow> at (run (replicate 8 Step) (run es proc_init)) = Returned)"
  using released_run [OF released_init, of es] next_pc_Unmap [of "at p" "g_running p"]
  by (auto simp: handle_signal_def step_def next_pc_CloseFile released_def in_tick_def stop_within_8
           split: pc.splits)

theorem shutdown_flag_single_release_witness:
  "at (run [Step, Step, Signal] proc_init) = Erase
   \<and> g_running (run [Step, Step, Signal] proc_init) = 0
   \<and> munmaps (run [Step, Step, Signal] proc_init) = 0
   \<and> closes (run [Step, Step, Signal] proc_init) = 0
   \<and> at (run (replicate 8 Step) (run [Step, Step, Signal] proc_init)) = Returned
   \<and> at (run ([Step, Step, Signal] @ replicate 7 Step) proc_init) = Returned
   \<and> munmaps (run ([Step, Step, Signal] @ replicate 7 Step) proc_init) = 1
   \<and> closes (run ([Step, Step, Signal] @ replicate 7 Step) proc_init) = 1"
proof -
  have a: "at (run [Step, Step, Signal] proc_init) = Erase"
    and g: "g_running (run [Step, Step, Signal] proc_init) = 0"
    by (simp_all add: proc_init_def step_def handle_signal_def)
  have r: "at (run ([Step, Step, Signal] @ replicate 7 Step) proc_init) = Returned"
    by (simp add: proc_init_def step_def handle_signal_def eval_nat_numeral)
  from a g r shutdown_flag_single_release [of proc_init "[Step, Step, Signal]"]
    shutdown_flag_single_release [of proc_init "[Step, Step, Signal] @ replicate 7 Step"]
  show ?thesis by (simp add: in_tick_def)
qed

subsection \<open>The eraser\<close>

lemma unat_mult_small:
  fixes a b :: u32
  assumes "unat a * unat b \<le> n" and "n < 2 ^ 32"
  shows "unat (a * b) = unat a * unat b"
proof -
  have "unat a * unat b < 2 ^ LENGTH(32)" using assms by simp
  then show ?thesis by (simp only: unat_mult_lem)
qed

lemma clear_time_call_eq:
  assumes "(unat (word_of_int y :: u32) + 8) * unat (line_length (finfo clock)) \<le> n"
    and "n < 2 ^ 32"
  shows "clear_time_call clock y =
           Memset (int (unat (word_of_int y :: u32) * unat (line_length (finfo clock)))) 0
             (8 * unat (line_length (finfo clock)))"
proof -
  let ?S = "unat (line_length (finfo clock))"
  let ?Y = "unat (word_of_int y :: u32)"
  have u8: "unat (8 :: u32) = 8" by simp
  have a: "?Y * ?S \<le> n"
    using assms(1) by (simp add: algebra_simps)
  have b: "unat (8 :: u32) * ?S \<le> n"
    unfolding u8 using assms(1) by (simp add: algebra_simps)
  have p: "unat (word_of_int y * line_length (finfo clock)) = ?Y * ?S"
    using unat_mult_small [OF a assms(2)] .
  have q: "unat (8 * line_length (finfo clock)) = 8 * ?S"
    using unat_mult_small [OF b assms(2)] unfolding u8 .
  show ?thesis
    unfolding clear_time_call_def uint_nat p q ..
qed

lemma in_bounds_Memset:
  "in_bounds len (Memset (int d) v n) = (n = 0 \<or> d + n \<le> len)"
  by (simp add: in_bounds_def)

lemma clear_time_Inr:
  assumes "(unat (word_of_int y :: u32) + 8) * unat (line_length (finfo clock)) \<le> length (video clock)"
    and "length (video clock) < 2 ^ 32"
  shows "\<exists>m. clear_time clock y = Inr (clock\<lparr>video := m\<rparr>) \<and> length m = length (video clock)
            \<and> memset (video clock) (clear_time_call clock y) = Inr m"
proof -
  have "in_bounds (length (video clock)) (clear_time_call clock y)"
    using assms(1) unfolding clear_time_call_eq [OF assms] in_bounds_Memset
    by (simp add: algebra_simps)
  then obtain m where m: "memset (video clock) (clear_time_call clock y) = Inr m"
    using memset_Inr_iff by blast
  then show ?thesis
    using memset_length [OF m] by (simp add: clear_time_def)
qed

lemma unat_word_of_int_nonneg:
  assumes "0 \<le> y" and "y < 2 ^ 32"
  shows "unat (word_of_int y :: u32) = nat y"
  using assms by (simp add: unat_eq_nat_uint uint_word_of_int)










subsection \<open>The rasterizer\<close>

lemma length_draw_char_calls: "length (draw_char_calls f clock x y ch) = 64"
  by (simp add: draw_char_calls_closed row_calls_def length_concat comp_def sum_list_triv)

lemma bytes_per_pixel_cases:
  assumes "bits_per_pixel (vinfo clock) \<in> {8, 16, 24, 32}"
  shows "8 * unat (bytes_per_pixel clock) = unat (bits_per_pixel (vinfo clock))"
    and "unat (bytes_per_pixel clock) \<in> {1, 2, 3, 4}"
  using assms by (auto simp: bytes_per_pixel_def)

lemma row_skip_unat:
  assumes "8 * unat (bytes_per_pixel clock) \<le> unat (line_length (finfo clock))"
  shows "8 * unat (bytes_per_pixel clock) + unat (row_skip clock) = unat (line_length (finfo clock))"
proof -
  have u8: "unat (8 :: u32) = 8" by simp
  have lt: "unat (line_length (finfo clock)) < 2 ^ 32"
    using unsigned_less [of "line_length (finfo clock)"] by simp
  have m: "unat (8 * bytes_per_pixel clock) = 8 * unat (bytes_per_pixel clock)"
    using unat_mult_small [of 8 "bytes_per_pixel clock", OF _ lt] assms unfolding u8 by simp
  have "8 * bytes_per_pixel clock \<le> line_length (finfo clock)"
    using assms unfolding word_le_nat_alt m .
  then have "unat (row_skip clock) = unat (line_length (finfo clock)) - unat (8 * bytes_per_pixel clock)"
    unfolding row_skip_def by (rule unat_sub)
  with assms m show ?thesis by simp
qed

lemma font_A_65: "font_A ! 65 = [0x0C, 0x1E, 0x33, 0x33, 0x3F, 0x33, 0x33, 0x00]"
  by (simp add: font_A_def nth_append)

subsection \<open>Every write of a tick lies in the mapping\<close>

lemma word_of_int_sint_u32: "word_of_int (sint (w :: u32)) = w"
  by simp

lemma sint_small:
  fixes w :: u32
  assumes "unat w < 2 ^ 31"
  shows "sint w = int (unat w)"
proof -
  have "int (unat w) < int (2 ^ 31)" using assms by (simp only: of_nat_less_iff)
  then have "uint w < 2 ^ 31" by simp
  moreover have "- (2 ^ 31) \<le> uint w"
  proof -
    have "- (2 ^ 31) \<le> (0::int)" by simp
    also have "0 \<le> uint w" by simp
    finally show ?thesis .
  qed
  ultimately have "signed_take_bit 31 (uint w) = uint w"
    by (intro signed_take_bit_int_eq_self)
  then have "sint w = uint w" by (simp add: sint_uint)
  then show ?thesis unfolding uint_nat .
qed

lemma x_offset:
  fixes b :: u32
  assumes "0 \<le> x" and "nat x * unat b \<le> n" and "n < 2 ^ 31"
  shows "sint (word_of_int x * b) = int (nat x * unat b)"
proof (cases "unat b = 0")
  case True
  then have "b = 0" by (simp add: unat_eq_0)
  then show ?thesis by simp
next
  case False
  then have "nat x * 1 \<le> nat x * unat b" by (intro mult_le_mono2) simp
  also have "\<dots> \<le> n" by (rule assms(2))
  finally have "nat x < 2 ^ 32" using assms(3) by simp
  then have "x < 2 ^ 32" using assms(1) by (simp add: nat_less_iff)
  then have ux: "unat (word_of_int x :: u32) = nat x"
    by (rule unat_word_of_int_nonneg [OF assms(1)])
  have n32: "n < 2 ^ 32" using assms(3) by simp
  have "unat (word_of_int x :: u32) * unat b \<le> n" unfolding ux by (rule assms(2))
  from unat_mult_small [OF this n32]
  have p: "unat (word_of_int x * b) = nat x * unat b" unfolding ux .
  then have "unat (word_of_int x * b) < 2 ^ 31" using assms(2,3) by simp
  from sint_small [OF this] show ?thesis unfolding p .
qed


lemma in_concat_rows:
  assumes "w \<in> set (concat (map (\<lambda>r. map (g r) [0..<(8::nat)]) [0..<(8::nat)]))"
  shows "\<exists>r<8. \<exists>c<8. w = g r c"
proof -
  from assms obtain r where r: "r < 8" and "w \<in> set (map (g r) [0..<8])"
    by auto
  then obtain c where c: "c < 8" and w: "w = g r c"
    by auto
  from r c w show ?thesis by blast
qed

lemma draw_char_calls_mem:
  assumes "w \<in> set (draw_char_calls f clock x y ch)"
  shows "\<exists>r<8. \<exists>c<8. \<exists>v.
           w = Memset (draw_start clock x y
                       + int r * (8 * int (unat (bytes_per_pixel clock)) + int (unat (row_skip clock)))
                       + int c * int (unat (bytes_per_pixel clock)))
                      v (unat (bytes_per_pixel clock))"
proof -
  from in_concat_rows [OF assms [unfolded draw_char_calls_closed row_calls_def]]
  show ?thesis by blast
qed

lemma call_offset:
  fixes B K S a r c :: nat
  assumes "8 * B + K = S"
  shows "int a + int r * (8 * int B + int K) + int c * int B = int (a + r * S + c * B)"
  unfolding assms [symmetric] by (simp add: algebra_simps)

lemma draw_start_eq:
  assumes x0: "0 \<le> x"
    and fitx: "(nat x + 8) * unat (bytes_per_pixel clock) \<le> unat (line_length (finfo clock))"
    and fity: "(unat (word_of_int y :: u32) + 8) * unat (line_length (finfo clock)) \<le> n"
    and len: "n < 2 ^ 32"
  shows "draw_start clock x y =
           int (unat (word_of_int y :: u32) * unat (line_length (finfo clock))
                + nat x * unat (bytes_per_pixel clock))"
proof -
  let ?S = "unat (line_length (finfo clock))"
  let ?B = "unat (bytes_per_pixel clock)"
  let ?Y = "unat (word_of_int y :: u32)"
  have ys: "?Y * ?S \<le> n" and s8: "8 * ?S \<le> n"
    using fity by (simp_all add: algebra_simps)
  have p: "unat (word_of_int y * line_length (finfo clock)) = ?Y * ?S"
    using unat_mult_small [OF ys len] .
  have xb: "nat x * ?B \<le> ?S"
    using fitx by (simp add: algebra_simps)
  have "?S < 2 ^ 31" using s8 len by simp
  from x_offset [OF x0 xb this]
  have q: "sint (word_of_int x * bytes_per_pixel clock) = int (nat x * ?B)" .
  show ?thesis
    unfolding draw_start_def uint_nat p q by simp
qed

lemma draw_char_calls_in_bounds:
  assumes x0: "0 \<le> x"
    and fitx: "(nat x + 8) * unat (bytes_per_pixel clock) \<le> unat (line_length (finfo clock))"
    and fity: "(unat (word_of_int y :: u32) + 8) * unat (line_length (finfo clock)) \<le> n"
    and len: "n < 2 ^ 32"
    and w: "w \<in> set (draw_char_calls f clock x y ch)"
  shows "in_bounds n w"
proof -
  let ?S = "unat (line_length (finfo clock))"
  let ?B = "unat (bytes_per_pixel clock)"
  let ?Y = "unat (word_of_int y :: u32)"
  have b8: "8 * ?B \<le> ?S"
    using fitx by (simp add: algebra_simps)
  have step: "8 * ?B + unat (row_skip clock) = ?S"
    by (rule row_skip_unat [OF b8])
  have start: "draw_start clock x y = int (?Y * ?S + nat x * ?B)"
    by (rule draw_start_eq [OF x0 fitx fity len])
  from draw_char_calls_mem [OF w] obtain r c v where r: "r < 8" and c: "c < 8"
    and w: "w = Memset (draw_start clock x y
                     + int r * (8 * int ?B + int (unat (row_skip clock)))
                     + int c * int ?B) v ?B"
    by blast
  have w': "w = Memset (int (?Y * ?S + nat x * ?B + r * ?S + c * ?B)) v ?B"
    unfolding w start call_offset [OF step] ..
  have "r * ?S \<le> 7 * ?S" using r by (intro mult_le_mono1) simp
  moreover have "c * ?B \<le> 7 * ?B" using c by (intro mult_le_mono1) simp
  moreover have "(?Y + 8) * ?S = ?Y * ?S + 7 * ?S + ?S" by (simp add: algebra_simps)
  moreover have "(nat x + 8) * ?B = nat x * ?B + 7 * ?B + ?B" by (simp add: algebra_simps)
  ultimately have "?Y * ?S + nat x * ?B + r * ?S + c * ?B + ?B \<le> n"
    using fitx fity by linarith
  then show ?thesis unfolding w' in_bounds_Memset by simp
qed

lemma draw_char_Inr:
  assumes tab: "in_table f ch"
    and x0: "0 \<le> x"
    and fitx: "(nat x + 8) * unat (bytes_per_pixel clock) \<le> unat (line_length (finfo clock))"
    and fity: "(unat (word_of_int y :: u32) + 8) * unat (line_length (finfo clock))
                 \<le> length (video clock)"
    and len: "length (video clock) < 2 ^ 32"
  shows "\<exists>m. draw_char f clock x y ch = Inr (clock\<lparr>video := m\<rparr>)
             \<and> length m = length (video clock)"
proof -
  have "\<forall>w\<in>set (draw_char_calls f clock x y ch). in_bounds (length (video clock)) w"
    using draw_char_calls_in_bounds [OF x0 fitx fity len] by blast
  then obtain m where m: "exec (draw_char_calls f clock x y ch) (video clock) = Inr m"
    using exec_Inr_iff [of "draw_char_calls f clock x y ch" "video clock"] by blast
  have "draw_char f clock x y ch = Inr (clock\<lparr>video := m\<rparr>)"
    using tab m by (simp add: draw_char_def)
  with exec_length [OF m] show ?thesis by blast
qed

lemma draw_text_Inr:
  assumes "(unat (word_of_int y :: u32) + 8) * unat (line_length (finfo clock))
                 \<le> length (video clock)"
    and "length (video clock) < 2 ^ 32"
    and "0 \<le> x"
    and "(nat x + 8 * length text) * unat (bytes_per_pixel clock) \<le> unat (line_length (finfo clock))"
    and "\<forall>c\<in>set text. in_table f (char_code c)"
    and "i < int (length text)"
  shows "\<exists>m. draw_text f clock x y text i = Inr (clock\<lparr>video := m\<rparr>)
             \<and> length m = length (video clock)"
  using assms
proof (induction "nat (i + 1)" arbitrary: i clock)
  case 0
  then have "\<not> i \<ge> 0" by simp
  then have "draw_text f clock x y text i = Inr clock"
    by (subst draw_text.simps) simp
  then show ?case by (intro exI [of _ "video clock"]) simp
next
  case (Suc n)
  let ?S = "unat (line_length (finfo clock))"
  let ?B = "unat (bytes_per_pixel clock)"
  from Suc.hyps(2) have i0: "0 \<le> i" and n: "n = nat ((i - 1) + 1)" by simp_all
  from Suc.prems(6) i0 have il: "nat i < length text" by simp
  let ?p = "x + i * 8"
  have p0: "0 \<le> ?p" using Suc.prems(3) i0 by simp
  have "nat ?p + 8 \<le> nat x + 8 * length text"
    using il Suc.prems(3) i0 by (simp add: nat_add_distrib nat_mult_distrib)
  then have "(nat ?p + 8) * ?B \<le> (nat x + 8 * length text) * ?B"
    by (rule mult_le_mono1)
  from this Suc.prems(4) have fitp: "(nat ?p + 8) * ?B \<le> ?S" by (rule order_trans)
  have tab: "in_table f (char_code (text ! nat i))"
    using Suc.prems(5) il by simp
  from draw_char_Inr [OF tab p0 fitp Suc.prems(1,2)]
  obtain m where m: "draw_char f clock ?p y (char_code (text ! nat i)) = Inr (clock\<lparr>video := m\<rparr>)"
    and lm: "length m = length (video clock)" by blast
  let ?c = "clock\<lparr>video := m\<rparr>"
  have geo: "line_length (finfo ?c) = line_length (finfo clock)"
    "bytes_per_pixel ?c = bytes_per_pixel clock" "length (video ?c) = length (video clock)"
    using lm by (simp_all add: bytes_per_pixel_def)
  have "\<exists>m'. draw_text f ?c x y text (i - 1) = Inr (?c\<lparr>video := m'\<rparr>)
             \<and> length m' = length (video ?c)"
    using Suc.prems unfolding geo [symmetric]
    by (intro Suc.hyps(1) [OF n]) simp_all
  then obtain m' where m': "draw_text f ?c x y text (i - 1) = Inr (clock\<lparr>video := m'\<rparr>)"
    and lm': "length m' = length (video clock)"
    using lm by auto
  have "draw_text f clock x y text i = Inr (clock\<lparr>video := m'\<rparr>)"
    using i0 il m m' by (subst draw_text.simps) (simp add: Let_def)
  with lm' show ?case by blast
qed


lemma row_col_mem:
  assumes "r < 8" and "c < 8"
  shows "g r c \<in> set (concat (map (\<lambda>r. map (g r) [0..<(8::nat)]) [0..<(8::nat)]))"
proof -
  have "g r c \<in> set (map (g r) [0..<8])"
    using assms(2) by simp
  moreover have "map (g r) [0..<8] \<in> set (map (\<lambda>r. map (g r) [0..<8]) [0..<8])"
    unfolding set_map using assms(1) by (intro imageI) simp
  ultimately show ?thesis
    unfolding set_concat by blast
qed

lemma font_A_in_table:
  assumes "0 \<le> ch" and "ch < 128"
  shows "in_table font_A ch"
proof -
  have "length (font_A ! n) = 8" if "n < 128" for n
    using that by (simp add: font_A_def nth_append nth_Cons')
  with assms show ?thesis
    by (simp add: in_table_def) (simp add: font_A_def)
qed

lemma draw_char_Inl:
  assumes "in_table f ch" and "w \<in> set (draw_char_calls f clock x y ch)"
    and "\<not> in_bounds (length (video clock)) w"
  shows "draw_char f clock x y ch = Inl OutOfBounds"
proof -
  from assms(2,3) have "\<not> (\<exists>m. exec (draw_char_calls f clock x y ch) (video clock) = Inr m)"
    unfolding exec_Inr_iff by blast
  then obtain e where e: "exec (draw_char_calls f clock x y ch) (video clock) = Inl e"
    by (cases "exec (draw_char_calls f clock x y ch) (video clock)") auto
  from exec_Inl [OF e] e assms(1) show ?thesis by (simp add: draw_char_def)
qed

lemma strip_y_unat:
  assumes "10 \<le> unat (yres (vinfo clock))"
  shows "unat (word_of_int (strip_y clock) :: u32) = unat (yres (vinfo clock)) - 10"
proof -
  have ten: "unat (10 :: u32) = 10" by simp
  have w: "(word_of_int (strip_y clock) :: u32) = yres (vinfo clock) - 10"
    by (simp add: strip_y_def)
  have "(10 :: u32) \<le> yres (vinfo clock)"
    using assms unfolding word_le_nat_alt ten .
  then have "unat (yres (vinfo clock) - 10) = unat (yres (vinfo clock)) - unat (10 :: u32)"
    by (rule unat_sub)
  then show ?thesis unfolding w ten .
qed

lemma in_bounds_addrs:
  assumes "in_bounds n w" and "a \<in> wr_addrs w"
  shows "0 \<le> a \<and> a < int n"
proof -
  from assms(2) have lo: "dst w \<le> a" and hi: "a < dst w + int (cnt w)"
    by (simp_all add: wr_addrs_def)
  then have "cnt w \<noteq> 0" by auto
  with assms(1) have "0 \<le> dst w" and "nat (dst w) + cnt w \<le> n"
    by (simp_all add: in_bounds_def)
  with lo hi show ?thesis by linarith
qed

text \<open>
  Claim C1, as amended. Let the mapping have the length the device reports, the surface
  at least 10 rows, rows times stride at most that length, \<open>x\<close> not negative, the text
  end at most one stride from the left (\<open>(x + 8 * length) * bytes_per_pixel\<close> at most the
  stride) and consist of characters of the glyph table. Then erasing the strip and drawing
  the text return, and every byte offset written by \<^verbatim>\<open>clear_time\<close> and by each call of
  \<^verbatim>\<open>draw_char\<close> lies in \<open>[0, smem_len)\<close>. The stride may exceed width times bytes per
  pixel: only the stride is used.
\<close>

theorem render_in_bounds:
  assumes len: "length (video clock) = unat (smem_len (finfo clock))"
    and rows: "10 \<le> unat (yres (vinfo clock))"
    and geom: "unat (yres (vinfo clock)) * unat (line_length (finfo clock))
                 \<le> unat (smem_len (finfo clock))"
    and x0: "0 \<le> x"
    and fit: "(nat x + 8 * length s) * unat (bytes_per_pixel clock)
                 \<le> unat (line_length (finfo clock))"
    and tab: "\<forall>c\<in>set s. in_table f (char_code c)"
  shows "(\<exists>m. render f clock x (strip_y clock) s = Inr (clock\<lparr>video := m\<rparr>)
              \<and> length m = length (video clock))
         \<and> (\<forall>a\<in>wr_addrs (clear_time_call clock (strip_y clock)).
                0 \<le> a \<and> a < int (unat (smem_len (finfo clock))))
         \<and> (\<forall>i<length s.
               \<forall>w\<in>set (draw_char_calls f clock (x + int i * 8) (strip_y clock) (char_code (s ! i))).
                 \<forall>a\<in>wr_addrs w. 0 \<le> a \<and> a < int (unat (smem_len (finfo clock))))"
proof -
  let ?S = "unat (line_length (finfo clock))"
  let ?B = "unat (bytes_per_pixel clock)"
  let ?R = "unat (yres (vinfo clock))"
  let ?y = "strip_y clock"
  let ?n = "unat (smem_len (finfo clock))"
  have n32: "?n < 2 ^ 32"
    using unsigned_less [of "smem_len (finfo clock)"] by simp
  have l32: "length (video clock) < 2 ^ 32"
    unfolding len by (rule n32)
  have Y: "unat (word_of_int ?y :: u32) = ?R - 10"
    by (rule strip_y_unat [OF rows])
  have "(?R - 10 + 8) * ?S \<le> ?R * ?S"
    using rows by (intro mult_le_mono1) simp
  from this geom have fity: "(unat (word_of_int ?y :: u32) + 8) * ?S \<le> ?n"
    unfolding Y by (rule order_trans)
  have fity': "(unat (word_of_int ?y :: u32) + 8) * ?S \<le> length (video clock)"
    unfolding len by (rule fity)
  from clear_time_Inr [OF fity' l32] obtain m0
    where clear: "clear_time clock ?y = Inr (clock\<lparr>video := m0\<rparr>)"
      and l0: "length m0 = length (video clock)"
      and ms: "memset (video clock) (clear_time_call clock ?y) = Inr m0"
    by blast
  let ?c = "clock\<lparr>video := m0\<rparr>"
  have geo: "line_length (finfo ?c) = line_length (finfo clock)"
    "bytes_per_pixel ?c = bytes_per_pixel clock" "length (video ?c) = length (video clock)"
    using l0 by (simp_all add: bytes_per_pixel_def)
  have "\<exists>m. draw_text f ?c x ?y s (int (length s) - 1) = Inr (?c\<lparr>video := m\<rparr>)
             \<and> length m = length (video ?c)"
    using fity' l32 x0 fit tab unfolding geo [symmetric]
    by (intro draw_text_Inr) simp_all
  then obtain m where "draw_text f ?c x ?y s (int (length s) - 1) = Inr (clock\<lparr>video := m\<rparr>)"
    and "length m = length (video clock)"
    using l0 by auto
  then have first: "\<exists>m. render f clock x ?y s = Inr (clock\<lparr>video := m\<rparr>)
              \<and> length m = length (video clock)"
    using clear by (auto simp: render_def Let_def)
  have "in_bounds ?n (clear_time_call clock ?y)"
    using memset_Inr_iff [of "video clock" "clear_time_call clock ?y"] ms
    unfolding len by blast
  then have second: "\<forall>a\<in>wr_addrs (clear_time_call clock ?y). 0 \<le> a \<and> a < int ?n"
    using in_bounds_addrs by blast
  have third: "0 \<le> a \<and> a < int ?n"
    if i: "i < length s"
      and w: "w \<in> set (draw_char_calls f clock (x + int i * 8) ?y (char_code (s ! i)))"
      and a: "a \<in> wr_addrs w" for i w a
  proof -
    have p0: "0 \<le> x + int i * 8" using x0 by simp
    have "nat (x + int i * 8) + 8 \<le> nat x + 8 * length s"
      using i x0 by (simp add: nat_add_distrib nat_mult_distrib)
    then have "(nat (x + int i * 8) + 8) * ?B \<le> (nat x + 8 * length s) * ?B"
      by (rule mult_le_mono1)
    from this fit have fitp: "(nat (x + int i * 8) + 8) * ?B \<le> ?S"
      by (rule order_trans)
    from draw_char_calls_in_bounds [OF p0 fitp fity n32 w] a show ?thesis
      by (rule in_bounds_addrs)
  qed
  from first second third show ?thesis by blast
qed

lemma char_code_A: "char_code CHR ''A'' = 65"
  by (simp add: char_code_def)

theorem render_in_bounds_witness:
  "(\<exists>m. render font_A surface_16bpp 5 (strip_y surface_16bpp) ''AA''
           = Inr (surface_16bpp\<lparr>video := m\<rparr>) \<and> length m = 768)
   \<and> strip_y surface_16bpp = 2
   \<and> unat (line_length (finfo surface_16bpp)) = 64
   \<and> 24 * unat (bytes_per_pixel surface_16bpp) < unat (line_length (finfo surface_16bpp))"
proof -
  have tab: "\<forall>c\<in>set ''AA''. in_table font_A (char_code c)"
    by (simp add: char_code_A font_A_in_table)
  have rest: "length (video surface_16bpp) = unat (smem_len (finfo surface_16bpp))"
    "10 \<le> unat (yres (vinfo surface_16bpp))"
    "unat (yres (vinfo surface_16bpp)) * unat (line_length (finfo surface_16bpp))
       \<le> unat (smem_len (finfo surface_16bpp))"
    "(0::int) \<le> 5"
    "(nat 5 + 8 * length ''AA'') * unat (bytes_per_pixel surface_16bpp)
       \<le> unat (line_length (finfo surface_16bpp))"
    by (simp_all add: surface_16bpp_def bytes_per_pixel_def)
  have more: "strip_y surface_16bpp = 2" "unat (line_length (finfo surface_16bpp)) = 64"
    "24 * unat (bytes_per_pixel surface_16bpp) < unat (line_length (finfo surface_16bpp))"
    "length (video surface_16bpp) = 768"
    by (simp_all add: surface_16bpp_def bytes_per_pixel_def strip_y_def)
  from render_in_bounds [OF rest tab] more show ?thesis by simp
qed


text \<open>
  Without those conditions claim C1 fails, since the code checks nothing: on a surface of
  64 by 64 pixels at 8 bits per pixel, whose geometry is consistent, the first tick
  draws the last character of the 25-character timestamp at \<open>x = 197\<close>, and the bottom
  row of its glyph starts at offset \<open>61 * 64 + 197 = 4101\<close>, past the 4096 bytes of the
  mapping.
\<close>

theorem small_surface_out_of_bounds:
  "run_loop font_A surface_64x64 [libc_epoch] = Inl OutOfBounds"
proof -
  let ?text = "''Thu Jan  1 00:00:00 1970\<newline>''"
  have composed: "compose_text libc_epoch surface_64x64 = Inr ?text"
    by (simp add: compose_text_def get_asctime_def asctime_def libc_epoch_def strcpy_def fbind_def
          surface_64x64_def)
  have y: "strip_y surface_64x64 = 54"
    by (simp add: strip_y_def surface_64x64_def)
  have "(unat (word_of_int 54 :: u32) + 8) * unat (line_length (finfo surface_64x64))
          \<le> length (video surface_64x64)"
    and "length (video surface_64x64) < 2 ^ 32"
    by (simp_all add: surface_64x64_def)
  from clear_time_Inr [OF this] obtain m
    where clear: "clear_time surface_64x64 54 = Inr (surface_64x64\<lparr>video := m\<rparr>)"
      and lm: "length m = 4096"
    by (auto simp: surface_64x64_def)
  let ?c = "surface_64x64\<lparr>video := m\<rparr>"
  have tab: "in_table font_A (char_code (?text ! nat 24))"
    by (rule font_A_in_table) (simp_all add: char_code_def)
  have bpp: "unat (bytes_per_pixel ?c) = 1" and skip: "unat (row_skip ?c) = 56"
    and start: "draw_start ?c (5 + 24 * 8) 54 = 3653"
    by (simp_all add: bytes_per_pixel_def row_skip_def draw_start_def surface_64x64_def)
  let ?g = "\<lambda>r c. Memset (3653 + int r * (8 * int 1 + int 56) + int c * int 1)
                       (if bit (font_A ! nat (char_code (?text ! nat 24)) ! r) c then 0xff else 0x0) 1"
  have "?g 7 0 \<in> set (draw_char_calls font_A ?c (5 + 24 * 8) 54 (char_code (?text ! nat 24)))"
    unfolding draw_char_calls_closed row_calls_def bpp skip start
    by (rule row_col_mem) simp_all
  moreover have "\<not> in_bounds (length (video ?c)) (?g 7 0)"
    by (simp add: in_bounds_def lm)
  ultimately have "draw_char font_A ?c (5 + 24 * 8) 54 (char_code (?text ! nat 24)) = Inl OutOfBounds"
    by (rule draw_char_Inl [OF tab])
  then have "draw_text font_A ?c 5 54 ?text 24 = Inl OutOfBounds"
    by (subst draw_text.simps) simp
  then have "render font_A surface_64x64 5 54 ?text = Inl OutOfBounds"
    by (simp add: render_def clear)
  then show ?thesis
    by (simp add: run_loop_def tick_def composed y fbind_def)
qed

subsection \<open>What draw\_char leaves on the surface\<close>

lemma exec_nth_unwritten:
  "exec ws mem = Inr m \<Longrightarrow> a < length mem \<Longrightarrow> \<forall>w\<in>set ws. int a \<notin> wr_addrs w
   \<Longrightarrow> m ! a = mem ! a"
proof (induction ws arbitrary: mem)
  case Nil
  then show ?case by simp
next
  case (Cons w ws)
  from Cons.prems(1) obtain m1 where m1: "memset mem w = Inr m1" and r: "exec ws m1 = Inr m"
    by (auto split: sum.splits)
  have l: "a < length m1" using memset_length [OF m1] Cons.prems(2) by simp
  have "m ! a = m1 ! a" using Cons.IH [OF r l] Cons.prems(3) by simp
  also have "m1 ! a = mem ! a" using memset_nth [OF m1 Cons.prems(2)] Cons.prems(3) by simp
  finally show ?case .
qed

lemma exec_nth_written:
  "exec ws mem = Inr m \<Longrightarrow> a < length mem \<Longrightarrow> \<exists>w\<in>set ws. int a \<in> wr_addrs w
   \<Longrightarrow> \<forall>w\<in>set ws. int a \<in> wr_addrs w \<longrightarrow> val w = v
   \<Longrightarrow> m ! a = v"
proof (induction ws arbitrary: mem)
  case Nil
  then show ?case by simp
next
  case (Cons w ws)
  from Cons.prems(1) obtain m1 where m1: "memset mem w = Inr m1" and r: "exec ws m1 = Inr m"
    by (auto split: sum.splits)
  have l: "a < length m1" using memset_length [OF m1] Cons.prems(2) by simp
  show ?case
  proof (cases "\<exists>w'\<in>set ws. int a \<in> wr_addrs w'")
    case True
    from Cons.IH [OF r l True] Cons.prems(4) show ?thesis by simp
  next
    case False
    then have "m ! a = m1 ! a" using exec_nth_unwritten [OF r l] by blast
    moreover from False Cons.prems(3) have "int a \<in> wr_addrs w" by auto
    ultimately show ?thesis
      using memset_nth [OF m1 Cons.prems(2)] Cons.prems(4) by simp
  qed
qed

lemma cell_unique:
  fixes B T r c k r' c' k' :: nat
  assumes T: "8 * B \<le> T" and c: "c < 8" and k: "k < B" and c': "c' < 8" and k': "k' < B"
    and eq: "r * T + c * B + k = r' * T + c' * B + k'"
  shows "r = r' \<and> c = c'"
proof -
  have cb: "c * B + k < 8 * B"
  proof -
    have "c * B \<le> 7 * B" using c by (intro mult_le_mono1) simp
    then show ?thesis using k by linarith
  qed
  have cb': "c' * B + k' < 8 * B"
  proof -
    have "c' * B \<le> 7 * B" using c' by (intro mult_le_mono1) simp
    then show ?thesis using k' by linarith
  qed
  have rr: "r = r'"
  proof (rule ccontr)
    assume "r \<noteq> r'"
    then consider "r < r'" | "r' < r" by linarith
    then show False
    proof cases
      case 1
      then have "(r + 1) * T \<le> r' * T" by (intro mult_le_mono1) simp
      then have "r * T + T \<le> r' * T" by (simp add: algebra_simps)
      with eq cb T show False by linarith
    next
      case 2
      then have "(r' + 1) * T \<le> r * T" by (intro mult_le_mono1) simp
      then have "r' * T + T \<le> r * T" by (simp add: algebra_simps)
      with eq cb' T show False by linarith
    qed
  qed
  have "c = c'"
  proof (rule ccontr)
    assume "c \<noteq> c'"
    then consider "c < c'" | "c' < c" by linarith
    then show False
    proof cases
      case 1
      then have "(c + 1) * B \<le> c' * B" by (intro mult_le_mono1) simp
      then have "c * B + B \<le> c' * B" by (simp add: algebra_simps)
      with eq rr k show False by simp
    next
      case 2
      then have "(c' + 1) * B \<le> c * B" by (intro mult_le_mono1) simp
      then have "c' * B + B \<le> c * B" by (simp add: algebra_simps)
      with eq rr k' show False by simp
    qed
  qed
  with rr show ?thesis by simp
qed


lemma wr_addrs_offsets: "(a \<in> wr_addrs (Memset d v n)) = (\<exists>k<n. a = d + int k)"
proof
  assume "a \<in> wr_addrs (Memset d v n)"
  then have "d \<le> a" and "a < d + int n" by (simp_all add: wr_addrs_def)
  then have "nat (a - d) < n" and "a = d + int (nat (a - d))" by simp_all
  then show "\<exists>k<n. a = d + int k" by blast
next
  assume "\<exists>k<n. a = d + int k"
  then show "a \<in> wr_addrs (Memset d v n)" by (auto simp: wr_addrs_def)
qed

lemma draw_char_calls_cells:
  "draw_char_calls f clock x y ch =
     concat (map (\<lambda>r. map (\<lambda>c. Memset (cell clock x y r c) (glyph_byte f ch r c)
                                   (unat (bytes_per_pixel clock))) [0..<8]) [0..<8])"
  unfolding draw_char_calls_closed row_calls_def cell_def glyph_byte_def ..

lemma cell_eq_unique:
  assumes "cell clock x y r c + int k = cell clock x y r' c' + int k'"
    and "c < 8" and "k < unat (bytes_per_pixel clock)"
    and "c' < 8" and "k' < unat (bytes_per_pixel clock)"
  shows "r = r' \<and> c = c'"
proof -
  let ?B = "unat (bytes_per_pixel clock)"
  let ?T = "8 * ?B + unat (row_skip clock)"
  have "int (r * ?T + c * ?B + k) = int (r' * ?T + c' * ?B + k')"
    using assms(1) unfolding cell_def of_nat_add of_nat_mult of_nat_numeral by linarith
  then have "r * ?T + c * ?B + k = r' * ?T + c' * ?B + k'"
    by (simp only: of_nat_eq_iff)
  from cell_unique [OF _ assms(2,3,4,5) this] show ?thesis by simp
qed

lemma draw_char_surface:
  assumes tab: "in_table f ch"
    and B: "0 < unat (bytes_per_pixel clock)"
    and ret: "draw_char f clock x y ch = Inr clock'"
  shows "finfo clock' = finfo clock \<and> vinfo clock' = vinfo clock
         \<and> capacity clock' = capacity clock
         \<and> length (video clock') = length (video clock)
         \<and> (\<forall>r<8. \<forall>c<8. \<forall>k<unat (bytes_per_pixel clock).
               0 \<le> cell clock x y r c
               \<and> nat (cell clock x y r c) + k < length (video clock)
               \<and> video clock' ! (nat (cell clock x y r c) + k) = glyph_byte f ch r c)
         \<and> (\<forall>a<length (video clock).
               (\<forall>r<8. \<forall>c<8. \<forall>k<unat (bytes_per_pixel clock).
                  int a \<noteq> cell clock x y r c + int k)
               \<longrightarrow> video clock' ! a = video clock ! a)"
proof -
  let ?B = "unat (bytes_per_pixel clock)"
  let ?ws = "draw_char_calls f clock x y ch"
  let ?w = "\<lambda>r c. Memset (cell clock x y r c) (glyph_byte f ch r c) ?B"
  from ret tab obtain m where m: "exec ?ws (video clock) = Inr m"
    and c': "clock' = clock\<lparr>video := m\<rparr>"
    by (auto simp: draw_char_def split: sum.splits)
  have len: "length m = length (video clock)" by (rule exec_length [OF m])
  have inb: "\<forall>w\<in>set ?ws. in_bounds (length (video clock)) w"
    using m exec_Inr_iff [of ?ws "video clock"] by blast
  have mem: "?w r c \<in> set ?ws" if "r < 8" "c < 8" for r c
    unfolding draw_char_calls_cells using that by (rule row_col_mem)
  have only: "\<exists>r<8. \<exists>c<8. w = ?w r c" if "w \<in> set ?ws" for w
    using that unfolding draw_char_calls_cells by (rule in_concat_rows)
  have pixel: "0 \<le> cell clock x y r c
               \<and> nat (cell clock x y r c) + k < length (video clock)
               \<and> m ! (nat (cell clock x y r c) + k) = glyph_byte f ch r c"
    if r: "r < 8" and c: "c < 8" and k: "k < ?B" for r c k
  proof -
    let ?a = "nat (cell clock x y r c) + k"
    from inb mem [OF r c] B have d0: "0 \<le> cell clock x y r c"
      and fit: "nat (cell clock x y r c) + ?B \<le> length (video clock)"
      by (auto simp: in_bounds_def)
    from fit k have al: "?a < length (video clock)" by simp
    have ia: "int ?a = cell clock x y r c + int k" using d0 by simp
    have here: "int ?a \<in> wr_addrs (?w r c)"
      unfolding wr_addrs_offsets ia using k by blast
    have same: "val w = glyph_byte f ch r c" if w: "w \<in> set ?ws" and a: "int ?a \<in> wr_addrs w" for w
    proof -
      from only [OF w] obtain r' c' where r': "r' < 8" and c': "c' < 8" and weq: "w = ?w r' c'"
        by blast
      from a obtain k' where k': "k' < ?B" and "int ?a = cell clock x y r' c' + int k'"
        unfolding weq wr_addrs_offsets by blast
      then have "cell clock x y r c + int k = cell clock x y r' c' + int k'"
        using ia by simp
      from cell_eq_unique [OF this c k c' k'] show ?thesis by (simp add: weq)
    qed
    have ex: "\<exists>w\<in>set ?ws. int ?a \<in> wr_addrs w"
      using mem [OF r c] here by blast
    have all: "\<forall>w\<in>set ?ws. int ?a \<in> wr_addrs w \<longrightarrow> val w = glyph_byte f ch r c"
      using same by blast
    have "m ! ?a = glyph_byte f ch r c"
      by (rule exec_nth_written [OF m al ex all])
    with d0 al show ?thesis by simp
  qed
  have rest: "m ! a = video clock ! a"
    if al: "a < length (video clock)"
      and no: "\<forall>r<8. \<forall>c<8. \<forall>k<?B. int a \<noteq> cell clock x y r c + int k" for a
  proof (rule exec_nth_unwritten [OF m al], rule ballI)
    fix w assume "w \<in> set ?ws"
    from only [OF this] obtain r c where "r < 8" "c < 8" and weq: "w = ?w r c" by blast
    with no show "int a \<notin> wr_addrs w"
      unfolding weq wr_addrs_offsets by blast
  qed
  from pixel rest len show ?thesis unfolding c' by simp
qed


lemma draw_char_returns_iff:
  assumes tab: "in_table f ch" and B: "0 < unat (bytes_per_pixel clock)"
  shows "(\<exists>clock'. draw_char f clock x y ch = Inr clock')
         = (\<forall>r<8. \<forall>c<8. 0 \<le> cell clock x y r c
               \<and> nat (cell clock x y r c) + unat (bytes_per_pixel clock) \<le> length (video clock))"
proof -
  let ?B = "unat (bytes_per_pixel clock)"
  let ?ws = "draw_char_calls f clock x y ch"
  let ?w = "\<lambda>r c. Memset (cell clock x y r c) (glyph_byte f ch r c) ?B"
  have "(\<exists>clock'. draw_char f clock x y ch = Inr clock') = (\<exists>m. exec ?ws (video clock) = Inr m)"
    using tab by (auto simp: draw_char_def split: sum.splits)
  also have "\<dots> = (\<forall>w\<in>set ?ws. in_bounds (length (video clock)) w)"
    by (rule exec_Inr_iff)
  also have "\<dots> = (\<forall>r<8. \<forall>c<8. in_bounds (length (video clock)) (?w r c))"
  proof
    assume a: "\<forall>w\<in>set ?ws. in_bounds (length (video clock)) w"
    show "\<forall>r<8. \<forall>c<8. in_bounds (length (video clock)) (?w r c)"
    proof (intro allI impI)
      fix r c :: nat assume "r < 8" "c < 8"
      then have "?w r c \<in> set ?ws"
        unfolding draw_char_calls_cells by (rule row_col_mem)
      with a show "in_bounds (length (video clock)) (?w r c)" by blast
    qed
  next
    assume a: "\<forall>r<8. \<forall>c<8. in_bounds (length (video clock)) (?w r c)"
    show "\<forall>w\<in>set ?ws. in_bounds (length (video clock)) w"
    proof
      fix w assume "w \<in> set ?ws"
      then have "\<exists>r<8. \<exists>c<8. w = ?w r c"
        unfolding draw_char_calls_cells by (rule in_concat_rows)
      with a show "in_bounds (length (video clock)) w" by blast
    qed
  qed
  also have "\<dots> = (\<forall>r<8. \<forall>c<8. 0 \<le> cell clock x y r c
               \<and> nat (cell clock x y r c) + ?B \<le> length (video clock))"
    using B by (simp add: in_bounds_def)
  finally show ?thesis .
qed

lemma draw_char_fault: "draw_char f clock x y ch = Inl e \<Longrightarrow> in_table f ch \<Longrightarrow> e = OutOfBounds"
  by (auto simp: draw_char_def split: sum.splits dest: exec_Inl)

lemma cell_cursor:
  "cell clock x y 0 0 = draw_start clock x y"
  "cell clock x y r (Suc c) = cell clock x y r c + int (unat (bytes_per_pixel clock))"
  "cell clock x y (Suc r) 0
     = cell clock x y r 7 + int (unat (bytes_per_pixel clock)) + int (unat (row_skip clock))"
  by (simp_all add: cell_def algebra_simps)

text \<open>
  Claim C2. For 8, 16, 24 or 32 bits per pixel and a character code of the glyph table,
  \<^verbatim>\<open>draw_char\<close> makes exactly 64 calls of \<^verbatim>\<open>memset\<close>, eight rows of eight pixels, each of
  \<open>bytes_per_pixel\<close> bytes at the cursor. The cursor starts at the offset of \<open>(x, y)\<close>,
  advances by \<open>bytes_per_pixel\<close> after each column and by
  \<^verbatim>\<open>line_length - 8 * bytes_per_pixel\<close> more after each row, so that a glyph row starts one
  stride after the one before when a row holds eight pixels. The call returns exactly when
  all 64 pixels lie in the mapping, and faults as a write out of bounds when not. When it
  returns, the geometry is what it was and on the surface the \<open>bytes_per_pixel\<close> bytes of
  the pixel in row \<open>r\<close>, column \<open>c\<close> are all \<open>0xff\<close> if bit \<open>c\<close> of row byte \<open>r\<close> of the
  glyph is set (bit 0 leftmost) and all zero if not, and every byte outside the 64 pixels
  is what it was.
\<close>

theorem draw_char_writes_glyph:
  assumes "bits_per_pixel (vinfo clock) \<in> {8, 16, 24, 32}"
    and "in_table font8x8_basic ch"
  shows "draw_char_calls font8x8_basic clock x y ch =
           concat (map (\<lambda>r. map (\<lambda>c. Memset (cell clock x y r c) (glyph_byte font8x8_basic ch r c)
                                         (unat (bytes_per_pixel clock))) [0..<8]) [0..<8])
         \<and> length (draw_char_calls font8x8_basic clock x y ch) = 64
         \<and> 8 * unat (bytes_per_pixel clock) = unat (bits_per_pixel (vinfo clock))
         \<and> cell clock x y 0 0 = draw_start clock x y
         \<and> (\<forall>r c. cell clock x y r (Suc c)
                    = cell clock x y r c + int (unat (bytes_per_pixel clock)))
         \<and> (\<forall>r. cell clock x y (Suc r) 0
                    = cell clock x y r 7 + int (unat (bytes_per_pixel clock))
                      + int (unat (line_length (finfo clock) - 8 * bytes_per_pixel clock)))
         \<and> (8 * unat (bytes_per_pixel clock) \<le> unat (line_length (finfo clock))
              \<longrightarrow> (\<forall>r. cell clock x y (Suc r) 0
                         = cell clock x y r 0 + int (unat (line_length (finfo clock)))))
         \<and> (\<exists>clock'. draw_char font8x8_basic clock x y ch = Inr clock')
             = (\<forall>r<8. \<forall>c<8. 0 \<le> cell clock x y r c
                  \<and> nat (cell clock x y r c) + unat (bytes_per_pixel clock)
                      \<le> length (video clock))
         \<and> (\<forall>e. draw_char font8x8_basic clock x y ch = Inl e \<longrightarrow> e = OutOfBounds)
         \<and> (\<forall>clock'. draw_char font8x8_basic clock x y ch = Inr clock' \<longrightarrow>
               finfo clock' = finfo clock \<and> vinfo clock' = vinfo clock
               \<and> capacity clock' = capacity clock
               \<and> length (video clock') = length (video clock)
               \<and> (\<forall>r<8. \<forall>c<8. \<forall>k<unat (bytes_per_pixel clock).
                     0 \<le> cell clock x y r c
                     \<and> nat (cell clock x y r c) + k < length (video clock)
                     \<and> video clock' ! (nat (cell clock x y r c) + k)
                         = glyph_byte font8x8_basic ch r c)
               \<and> (\<forall>a<length (video clock).
                     (\<forall>r<8. \<forall>c<8. \<forall>k<unat (bytes_per_pixel clock).
                        int a \<noteq> cell clock x y r c + int k)
                     \<longrightarrow> video clock' ! a = video clock ! a))"
proof -
  let ?B = "unat (bytes_per_pixel clock)"
  have B: "0 < ?B"
    using bytes_per_pixel_cases(2) [OF assms(1)] by auto
  have stride: "cell clock x y (Suc r) 0 = cell clock x y r 0 + int (unat (line_length (finfo clock)))"
    if "8 * ?B \<le> unat (line_length (finfo clock))" for r
  proof -
    have "int (8 * ?B + unat (row_skip clock)) = int (unat (line_length (finfo clock)))"
      by (simp only: row_skip_unat [OF that])
    then show ?thesis
      unfolding cell_def of_nat_add of_nat_mult of_nat_numeral by (simp add: algebra_simps)
  qed
  show ?thesis
  proof (intro conjI)
    show "draw_char_calls font8x8_basic clock x y ch =
           concat (map (\<lambda>r. map (\<lambda>c. Memset (cell clock x y r c) (glyph_byte font8x8_basic ch r c)
                                         (unat (bytes_per_pixel clock))) [0..<8]) [0..<8])"
      by (rule draw_char_calls_cells)
    show "length (draw_char_calls font8x8_basic clock x y ch) = 64"
      by (rule length_draw_char_calls)
    show "8 * ?B = unat (bits_per_pixel (vinfo clock))"
      by (rule bytes_per_pixel_cases(1) [OF assms(1)])
    show "cell clock x y 0 0 = draw_start clock x y"
      by (rule cell_cursor(1))
    show "\<forall>r c. cell clock x y r (Suc c) = cell clock x y r c + int ?B"
      by (simp only: cell_cursor(2)) simp
    show "\<forall>r. cell clock x y (Suc r) 0
                    = cell clock x y r 7 + int ?B
                      + int (unat (line_length (finfo clock) - 8 * bytes_per_pixel clock))"
      using cell_cursor(3) [of clock x y] unfolding row_skip_def by blast
    show "8 * ?B \<le> unat (line_length (finfo clock))
              \<longrightarrow> (\<forall>r. cell clock x y (Suc r) 0
                         = cell clock x y r 0 + int (unat (line_length (finfo clock))))"
      using stride by blast
    show "(\<exists>clock'. draw_char font8x8_basic clock x y ch = Inr clock')
             = (\<forall>r<8. \<forall>c<8. 0 \<le> cell clock x y r c
                  \<and> nat (cell clock x y r c) + ?B \<le> length (video clock))"
      by (rule draw_char_returns_iff [OF assms(2) B])
    show "\<forall>e. draw_char font8x8_basic clock x y ch = Inl e \<longrightarrow> e = OutOfBounds"
      using draw_char_fault [OF _ assms(2)] by blast
    show "\<forall>clock'. draw_char font8x8_basic clock x y ch = Inr clock' \<longrightarrow>
               finfo clock' = finfo clock \<and> vinfo clock' = vinfo clock
               \<and> capacity clock' = capacity clock
               \<and> length (video clock') = length (video clock)
               \<and> (\<forall>r<8. \<forall>c<8. \<forall>k<?B.
                     0 \<le> cell clock x y r c
                     \<and> nat (cell clock x y r c) + k < length (video clock)
                     \<and> video clock' ! (nat (cell clock x y r c) + k)
                         = glyph_byte font8x8_basic ch r c)
               \<and> (\<forall>a<length (video clock).
                     (\<forall>r<8. \<forall>c<8. \<forall>k<?B.
                        int a \<noteq> cell clock x y r c + int k)
                     \<longrightarrow> video clock' ! a = video clock ! a)"
      using draw_char_surface [OF assms(2) B] by blast
  qed
qed


theorem draw_char_writes_glyph_witness:
  "\<exists>clock'. draw_char font_A surface_16bpp 5 2 65 = Inr clock'
      \<and> length (video clock') = 768
      \<and> video clock' ! 137 = 0x55 \<and> video clock' ! 138 = 0 \<and> video clock' ! 139 = 0
      \<and> video clock' ! 142 = 0xff \<and> video clock' ! 143 = 0xff
      \<and> video clock' ! 154 = 0x55 \<and> video clock' ! 204 = 0xff \<and> video clock' ! 205 = 0xff"
proof -
  have b: "bits_per_pixel (vinfo surface_16bpp) \<in> {8, 16, 24, 32}"
    by (simp add: surface_16bpp_def)
  have t: "in_table font_A 65"
    by (rule font_A_in_table) simp_all
  note dc = draw_char_writes_glyph [OF b t, of 5 2]
  have bpp: "unat (bytes_per_pixel surface_16bpp) = 2"
    and len: "length (video surface_16bpp) = 768"
    and old: "\<And>a. a < 768 \<Longrightarrow> video surface_16bpp ! a = 0x55"
    by (simp_all add: bytes_per_pixel_def surface_16bpp_def)
  have cell: "cell surface_16bpp 5 2 r c = 138 + 64 * int r + 2 * int c" for r c
    by (simp add: cell_def bytes_per_pixel_def row_skip_def draw_start_def surface_16bpp_def)
  have g: "glyph_byte font_A 65 0 0 = 0" "glyph_byte font_A 65 0 2 = 0xff"
    "glyph_byte font_A 65 (Suc 0) (Suc 0) = 0xff"
    by (simp_all add: glyph_byte_def font_A_65)
  have "\<forall>r<8. \<forall>c<8. 0 \<le> cell surface_16bpp 5 2 r c
          \<and> nat (cell surface_16bpp 5 2 r c) + unat (bytes_per_pixel surface_16bpp)
              \<le> length (video surface_16bpp)"
    unfolding cell bpp len by auto
  with dc obtain clock' where ret: "draw_char font_A surface_16bpp 5 2 65 = Inr clock'"
    by blast
  with dc have l: "length (video clock') = length (video surface_16bpp)"
    and px: "\<And>r c k. r < 8 \<Longrightarrow> c < 8 \<Longrightarrow> k < unat (bytes_per_pixel surface_16bpp) \<Longrightarrow>
               video clock' ! (nat (cell surface_16bpp 5 2 r c) + k) = glyph_byte font_A 65 r c"
    and un: "\<And>a. a < length (video surface_16bpp) \<Longrightarrow>
               (\<forall>r<8. \<forall>c<8. \<forall>k<unat (bytes_per_pixel surface_16bpp).
                  int a \<noteq> cell surface_16bpp 5 2 r c + int k)
               \<Longrightarrow> video clock' ! a = video surface_16bpp ! a"
    by blast+
  have p138: "video clock' ! 138 = 0" using px [of 0 0 0] by (simp add: cell bpp g)
  have p139: "video clock' ! 139 = 0" using px [of 0 0 1] by (simp add: cell bpp g)
  have p142: "video clock' ! 142 = 0xff" using px [of 0 2 0] by (simp add: cell bpp g)
  have p143: "video clock' ! 143 = 0xff" using px [of 0 2 1] by (simp add: cell bpp g)
  have p204: "video clock' ! 204 = 0xff" using px [of 1 1 0] by (simp add: cell bpp g)
  have p205: "video clock' ! 205 = 0xff" using px [of 1 1 1] by (simp add: cell bpp g)
  have u137: "video clock' ! 137 = 0x55"
    using un [of 137] old [of 137] unfolding cell bpp len by auto
  have u154: "video clock' ! 154 = 0x55"
  proof -
    have "\<forall>r<8. \<forall>c<8. \<forall>k<2. int 154 \<noteq> 138 + 64 * int r + 2 * int c + int k"
      by presburger
    then show ?thesis
      using un [of 154] old [of 154] unfolding cell bpp len by simp
  qed
  from ret l len p138 p139 p142 p143 p204 p205 u137 u154 show ?thesis by simp
qed

subsection \<open>The text of a tick\<close>

lemma dec_length: "0 < k \<Longrightarrow> n < 10 ^ k \<Longrightarrow> length (dec n) \<le> k"
proof (induction k arbitrary: n)
  case 0
  then show ?case by simp
next
  case (Suc k)
  show ?case
  proof (cases "n < 10")
    case True
    then show ?thesis by (subst dec.simps) simp
  next
    case False
    then have k: "0 < k" using Suc.prems(2) by (cases k) simp_all
    have "n div 10 < 10 ^ k" using Suc.prems(2) by (simp add: less_mult_imp_div_less mult.commute)
    from Suc.IH [OF k this] False show ?thesis by (subst dec.simps) simp
  qed
qed

lemma fmt_d_length:
  assumes "- (2 ^ 31) \<le> n" and "n < 2 ^ 31"
  shows "length (fmt_d n) \<le> 11"
proof (cases "n < 0")
  case True
  then have "nat (- n) < 10 ^ 10" using assms(1) by simp
  from dec_length [OF _ this] True show ?thesis by (simp add: fmt_d_def)
next
  case False
  then have "nat n < 10 ^ 10" using assms(2) by simp
  from dec_length [OF _ this] False show ?thesis by (simp add: fmt_d_def)
qed

lemma long_to_int_range: "- (2 ^ 31) \<le> long_to_int v \<and> long_to_int v < 2 ^ 31"
  unfolding long_to_int_def
  using sint_ge [of "word_of_int (max (- (2 ^ 63)) (min (2 ^ 63 - 1) v)) :: 32 word"]
    sint_lt [of "word_of_int (max (- (2 ^ 63)) (min (2 ^ 63 - 1) v)) :: 32 word"]
  by simp

lemma atoi_range: "- (2 ^ 31) \<le> atoi s \<and> atoi s < 2 ^ 31"
  using long_to_int_range by (simp add: atoi_def split: list.split)

lemma suffix_length: "length (''- '' @ fmt_d (atoi s) @ ''%'') \<le> 14"
  using fmt_d_length [of "atoi s"] atoi_range [of s] by simp


lemma add_power_level_Inr:
  assumes "length t \<le> 113"
  shows "\<exists>u. add_power_level_to_text lc path t = Inr (t @ u) \<and> length u \<le> 14"
proof (cases "fopen_r lc path")
  case None
  then show ?thesis by (simp add: add_power_level_to_text_def)
next
  case (Some fl)
  let ?cap = "case fgets 4 fl of Some line \<Rightarrow> line | None \<Rightarrow> stack_bytes lc"
  let ?u = "''- '' @ fmt_d (atoi ?cap) @ ''%''"
  have u: "length ?u \<le> 14" by (rule suffix_length)
  then have "length (t @ ?u) < 128" using assms by simp
  then have "add_power_level_to_text lc path t = Inr (t @ ?u)"
    using Some by (simp add: add_power_level_to_text_def Let_def)
  with u show ?thesis by blast
qed

lemma add_power_level_unopened:
  "fopen_r lc path = None \<Longrightarrow> add_power_level_to_text lc path t = Inr t"
  by (simp add: add_power_level_to_text_def)

lemma get_asctime_placeholder:
  "time_unresolved lc \<Longrightarrow> get_asctime lc = Inr ''Error getting time!''"
  by (auto simp: time_unresolved_def get_asctime_def strcpy_def Let_def split: option.splits)

lemma atoi_87: "atoi ''87\<newline>'' = 87"
  by (simp add: atoi_def isspace_def isdigit_def long_to_int_def)

lemma atoi_100: "atoi ''100'' = 100"
  by (simp add: atoi_def isspace_def isdigit_def long_to_int_def)

lemma fmt_d_87: "fmt_d 87 = ''87''"
  by code_simp

lemma fmt_d_100: "fmt_d 100 = ''100''"
  by code_simp

lemma fgets_examples:
  "fgets 4 (Contents ''87\<newline>'') = Some ''87\<newline>''"
  "fgets 4 (Contents ''100\<newline>'') = Some ''100''"
  "fgets 4 (Contents []) = None"
  "fgets 4 ReadError = None"
  by (simp_all add: fgets_def eval_nat_numeral)

lemma capacity_unopened_keeps_text:
  "capacity clock = Some path \<Longrightarrow> fopen_r lc path = None
   \<Longrightarrow> compose_text lc clock = get_asctime lc"
  by (cases "get_asctime lc") (simp_all add: compose_text_def fbind_def add_power_level_unopened)

lemma add_power_level_read:
  assumes "fopen_r lc path = Some fl" and "fgets 4 fl = Some ln" and "length t \<le> 113"
  shows "add_power_level_to_text lc path t = Inr (t @ ''- '' @ fmt_d (atoi ln) @ ''%'')"
proof -
  have "length (t @ ''- '' @ fmt_d (atoi ln) @ ''%'') < 128"
    using suffix_length [of ln] assms(3) by simp
  then show ?thesis
    using assms(1,2) by (simp add: add_power_level_to_text_def Let_def)
qed

text \<open>
  Claim C6, as amended. When the time of a tick is not resolved, \<^verbatim>\<open>get_asctime\<close> writes
  exactly \<open>Error getting time!\<close> and the text of the tick is composed without a fault. It
  is the placeholder alone when no capacity file is configured or it cannot be opened; it
  is the placeholder followed by \<open>- N%\<close>, and so not the placeholder alone, when the
  capacity file is opened and a line is read from it, \<open>N\<close> being the number in the line.
\<close>

theorem placeholder_on_time_failure:
  assumes "time_unresolved lc"
  shows "get_asctime lc = Inr ''Error getting time!''
         \<and> (capacity clock = None \<longrightarrow> compose_text lc clock = Inr ''Error getting time!'')
         \<and> (\<forall>path. capacity clock = Some path \<and> fopen_r lc path = None
               \<longrightarrow> compose_text lc clock = Inr ''Error getting time!'')
         \<and> (\<forall>path fl ln. capacity clock = Some path \<and> fopen_r lc path = Some fl
                 \<and> fgets 4 fl = Some ln
               \<longrightarrow> compose_text lc clock
                   = Inr (''Error getting time!'' @ ''- '' @ fmt_d (atoi ln) @ ''%'')
                 \<and> compose_text lc clock \<noteq> Inr ''Error getting time!'')
         \<and> (\<exists>u. compose_text lc clock = Inr (''Error getting time!'' @ u))"
proof -
  note g = get_asctime_placeholder [OF assms]
  have none: "compose_text lc clock = Inr ''Error getting time!''" if "capacity clock = None"
    using that by (simp add: compose_text_def g fbind_def)
  have unopened: "compose_text lc clock = Inr ''Error getting time!''"
    if "capacity clock = Some path" and "fopen_r lc path = None" for path
    using that by (simp add: compose_text_def g fbind_def add_power_level_unopened)
  have read: "compose_text lc clock = Inr (''Error getting time!'' @ ''- '' @ fmt_d (atoi ln) @ ''%'')"
    if "capacity clock = Some path" and o: "fopen_r lc path = Some fl" and r: "fgets 4 fl = Some ln"
    for path fl ln
    using that(1) add_power_level_read [OF o r, of "''Error getting time!''"]
    by (simp add: compose_text_def g fbind_def)
  have pre: "\<exists>u. compose_text lc clock = Inr (''Error getting time!'' @ u)"
  proof (cases "capacity clock")
    case None
    from none [OF this] show ?thesis by simp
  next
    case (Some path)
    from add_power_level_Inr [of "''Error getting time!''" lc path]
    obtain u where "add_power_level_to_text lc path ''Error getting time!''
                      = Inr (''Error getting time!'' @ u)"
      by auto
    then have "compose_text lc clock = Inr (''Error getting time!'' @ u)"
      by (simp add: compose_text_def g fbind_def Some)
    then show ?thesis by blast
  qed
  from g none unopened read pre show ?thesis by auto
qed

theorem placeholder_on_time_failure_witness:
  "time_unresolved libc_no_time
   \<and> get_asctime libc_no_time = Inr ''Error getting time!''
   \<and> compose_text libc_no_time surface_16bpp = Inr ''Error getting time!''
   \<and> compose_text (libc_no_time\<lparr>fopen_r := (\<lambda>p. None)\<rparr>) clock_battery
       = Inr ''Error getting time!''
   \<and> compose_text libc_no_time clock_battery = Inr ''Error getting time!- 87%''"
proof -
  let ?lc = "libc_no_time\<lparr>fopen_r := (\<lambda>p. None)\<rparr>"
  let ?path = "''/sys/class/power_supply/BAT0/capacity''"
  have t: "time_unresolved libc_no_time" "time_unresolved ?lc"
    by (simp_all add: time_unresolved_def libc_no_time_def libc_epoch_def)
  have c: "capacity surface_16bpp = None" "capacity clock_battery = Some ?path"
    "fopen_r ?lc ?path = None" "fopen_r libc_no_time ?path = Some (Contents ''87\<newline>'')"
    by (simp_all add: surface_16bpp_def clock_battery_def libc_no_time_def)
  note f = fgets_examples(1)
  have s: "''Error getting time!'' @ ''- '' @ fmt_d (atoi ''87\<newline>'') @ ''%''
           = ''Error getting time!- 87%''"
    by (simp add: atoi_87 fmt_d_87)
  from placeholder_on_time_failure [OF t(1), of surface_16bpp] c(1)
  have a: "get_asctime libc_no_time = Inr ''Error getting time!''"
    and b: "compose_text libc_no_time surface_16bpp = Inr ''Error getting time!''"
    by blast+
  from placeholder_on_time_failure [OF t(2), of clock_battery] c(2,3)
  have d: "compose_text ?lc clock_battery = Inr ''Error getting time!''"
    by blast
  from placeholder_on_time_failure [OF t(1), of clock_battery] c(2,4) f
  have "compose_text libc_no_time clock_battery
          = Inr (''Error getting time!'' @ ''- '' @ fmt_d (atoi ''87\<newline>'') @ ''%'')"
    by blast
  then have e: "compose_text libc_no_time clock_battery = Inr ''Error getting time!- 87%''"
    unfolding s .
  from t(1) a b d e show ?thesis by simp
qed

text \<open>
  With a capacity file that can be read, the composed text of such a tick is not the
  placeholder alone, as claim C6 has it: the suffix is appended to it.
\<close>

theorem placeholder_with_suffix:
  "compose_text libc_no_time clock_battery = Inr ''Error getting time!- 87%''
   \<and> compose_text libc_no_time clock_battery \<noteq> Inr ''Error getting time!''"
  by (simp add: compose_text_def get_asctime_def asctime_def strcpy_def fbind_def libc_no_time_def
        libc_epoch_def clock_battery_def add_power_level_to_text_def fgets_examples atoi_87
        fmt_d_87 Let_def)

lemma asctime_length: "asctime lc l = Some s \<Longrightarrow> length s \<le> 113"
  by (auto simp: asctime_def split: option.splits if_splits)

lemma get_asctime_Inr: "\<exists>t. get_asctime lc = Inr t \<and> length t \<le> 113"
proof (cases "time_unresolved lc")
  case True
  from get_asctime_placeholder [OF this] show ?thesis by simp
next
  case False
  then obtain l s where l: "localtime_of lc (time_now lc) = Some l"
    and s: "asctime lc l = Some s" and now: "time_now lc \<noteq> - 1"
    by (auto simp: time_unresolved_def split: option.splits)
  from asctime_length [OF s] have "length s \<le> 113" .
  then show ?thesis
    using l s now by (simp add: get_asctime_def strcpy_def Let_def)
qed

text \<open>
  Claim C8. On every tick the text is composed without writing past the end of
  \<^verbatim>\<open>text\<close> and has at most 127 characters: the timestamp, or the placeholder, has at most
  113, and the suffix at most 14. Nothing is truncated or rejected, since nothing needs to
  be.
\<close>

theorem text_fits_buffer:
  "(\<exists>t. get_asctime lc = Inr t \<and> length t \<le> 113)
   \<and> (\<exists>t. compose_text lc clock = Inr t \<and> length t \<le> 127)"
proof -
  obtain t where t: "get_asctime lc = Inr t" and lt: "length t \<le> 113"
    using get_asctime_Inr by blast
  have "\<exists>t. compose_text lc clock = Inr t \<and> length t \<le> 127"
  proof (cases "capacity clock")
    case None
    then show ?thesis using t lt by (simp add: compose_text_def fbind_def)
  next
    case (Some path)
    from add_power_level_Inr [OF lt, of lc path] obtain u
      where "add_power_level_to_text lc path t = Inr (t @ u)" and "length u \<le> 14" by blast
    then show ?thesis using t lt Some by (simp add: compose_text_def fbind_def)
  qed
  with t lt show ?thesis by blast
qed

theorem text_fits_buffer_witness:
  "compose_text libc_battery clock_battery = Inr ''Thu Jan  1 00:00:00 1970\<newline>- 100%''
   \<and> (\<exists>t. compose_text libc_battery clock_battery = Inr t \<and> length t \<le> 127)"
proof -
  have "compose_text libc_battery clock_battery = Inr ''Thu Jan  1 00:00:00 1970\<newline>- 100%''"
    by (simp add: compose_text_def get_asctime_def asctime_def strcpy_def fbind_def libc_battery_def
          libc_epoch_def clock_battery_def add_power_level_to_text_def fgets_examples atoi_100
          fmt_d_100 Let_def)
  with text_fits_buffer [of libc_battery clock_battery]
  show ?thesis by simp
qed

text \<open>
  Claim C4 at a capacity file that opens and gives no line (it is empty, or reading it
  fails): \<^verbatim>\<open>fgets\<close> returns \<^verbatim>\<open>NULL\<close>, its result is not tested, and the suffix is
  appended all the same, with the number \<^verbatim>\<open>atoi\<close> finds in the buffer that was never
  written; with \<open>87\<close> left there the text ends in \<open>- 87%\<close>.
\<close>

theorem unread_capacity_suffix_appended:
  "fgets 4 (Contents []) = None \<and> fgets 4 ReadError = None
   \<and> compose_text (libc_unread (Contents []) ''87\<newline>'') clock_battery
       = Inr ''Thu Jan  1 00:00:00 1970\<newline>- 87%''
   \<and> (\<forall>junk. compose_text (libc_unread (Contents []) junk) clock_battery
         = Inr (''Thu Jan  1 00:00:00 1970\<newline>'' @ ''- '' @ fmt_d (atoi junk) @ ''%''))
   \<and> (\<forall>junk. compose_text (libc_unread ReadError junk) clock_battery
         = Inr (''Thu Jan  1 00:00:00 1970\<newline>'' @ ''- '' @ fmt_d (atoi junk) @ ''%''))"
proof -
  have gen: "compose_text (libc_unread fl junk) clock_battery
         = Inr (''Thu Jan  1 00:00:00 1970\<newline>'' @ ''- '' @ fmt_d (atoi junk) @ ''%'')"
    if "fgets 4 fl = None" for fl junk
    using that suffix_length [of junk]
    by (simp add: compose_text_def get_asctime_def asctime_def strcpy_def fbind_def libc_unread_def
          libc_epoch_def clock_battery_def add_power_level_to_text_def Let_def)
  note e = fgets_examples(3,4)
  from gen [OF e(1), of "''87\<newline>''"] gen [OF e(1)] gen [OF e(2)] e
  show ?thesis by (simp add: atoi_87 fmt_d_87)
qed

end
